theory Spec2Isabelle
  imports Main "HOL-Library.Char_ord"
begin

section \<open>Shared conventions\<close>

text \<open>
  The three engines of the repository (\<^verbatim>\<open>cfg.py\<close>, \<^verbatim>\<open>npda.py\<close>, \<^verbatim>\<open>tm.py\<close>) work on
  Python strings. A symbol (grammar variable, terminal, input symbol, stack symbol, tape
  cell) is one character; state names are strings. The character \<^verbatim>\<open>e\<close> stands for epsilon.

  Python sets that the code iterates over (rules, transitions) are lists here: the list is
  the order in which the set happens to be enumerated, and every theorem below holds for
  every such order. Sets that are only tested for membership stay sets.

  The searches of the NPDA and of the grammar engine, and the stepping of the TM, are
  recursive Python functions. They are modelled with a recursion budget (fuel): the value
  \<open>None\<close> says that the budget was used up before the call returned, \<open>Some r\<close> that the
  call returned \<open>r\<close>.
\<close>

definition epsilon :: char where
  "epsilon = CHR ''e''"

section \<open>The stack automaton (npda.py)\<close>

type_synonym npda_transition = "string \<times> char \<times> char \<times> char \<times> string"

record NPDA =
  npda_states :: "string set"
  npda_input_alphabet :: "char set"
  npda_stack_alphabet :: "char set"
  npda_transitions :: "npda_transition list"
  npda_start_state :: string
  npda_accept_states :: "string set"

text \<open>
  \<^verbatim>\<open>NPDA._simulate\<close>. The stack is a string whose top is its last character
  (\<^verbatim>\<open>stack[-1]\<close>, \<^verbatim>\<open>stack[:-1]\<close>, \<^verbatim>\<open>new_stack += stack_push\<close>).

  \<open>npda_apply_transition\<close> is the body of the \<^verbatim>\<open>for transition in self.transitions\<close> loop up
  to the recursive call: \<open>None\<close> where the source says \<^verbatim>\<open>continue\<close>, otherwise the
  configuration handed to the recursive call. \<open>npda_simulate\<close> is the function body and
  \<open>npda_simulate_loop\<close> the loop over the transitions that are still to be tried.
\<close>

type_synonym npda_config = "string \<times> string \<times> string"

definition npda_apply_transition ::
  "npda_transition \<Rightarrow> string \<Rightarrow> string \<Rightarrow> string \<Rightarrow> npda_config option" where
  "npda_apply_transition transition state remaining_input stack =
     (case transition of (source, input_symbol, stack_pop, stack_push, destination) \<Rightarrow>
      if source \<noteq> state then None
      else if input_symbol \<noteq> epsilon \<and>
              (remaining_input = [] \<or> hd remaining_input \<noteq> input_symbol)
        then None
      else if stack_pop \<noteq> epsilon \<and> (stack = [] \<or> last stack \<noteq> stack_pop)
        then None
      else
        let new_stack = (if stack_pop \<noteq> epsilon then butlast stack else stack);
            new_stack = (if stack_push \<noteq> epsilon then new_stack @ [stack_push] else new_stack);
            new_input = (if input_symbol \<noteq> epsilon then tl remaining_input else remaining_input)
        in Some (destination, new_input, new_stack))"

function (sequential)
  npda_simulate :: "nat \<Rightarrow> NPDA \<Rightarrow> string \<Rightarrow> string \<Rightarrow> string \<Rightarrow> bool option"
  and npda_simulate_loop ::
    "nat \<Rightarrow> NPDA \<Rightarrow> npda_transition list \<Rightarrow> string \<Rightarrow> string \<Rightarrow> string \<Rightarrow> bool option"
where
  "npda_simulate 0 M state remaining_input stack = None"
| "npda_simulate (Suc n) M state remaining_input stack =
     (if state \<in> npda_accept_states M \<and> remaining_input = [] then Some True
      else npda_simulate_loop n M (npda_transitions M) state remaining_input stack)"
| "npda_simulate_loop n M [] state remaining_input stack = Some False"
| "npda_simulate_loop n M (transition # ts) state remaining_input stack =
     (case npda_apply_transition transition state remaining_input stack of
        None \<Rightarrow> npda_simulate_loop n M ts state remaining_input stack
      | Some (destination, new_input, new_stack) \<Rightarrow>
         (case npda_simulate n M destination new_input new_stack of
            None \<Rightarrow> None
          | Some True \<Rightarrow> Some True
          | Some False \<Rightarrow> npda_simulate_loop n M ts state remaining_input stack))"
  by pat_completeness auto
termination
  by (relation "inv_image (less_than <*lex*> less_than)
        (\<lambda>x. case x of Inl (n, M, q, i, s) \<Rightarrow> (n, 0)
                  | Inr (n, M, ts, q, i, s) \<Rightarrow> (n, Suc (length ts)))") auto

definition npda_accepts :: "nat \<Rightarrow> NPDA \<Rightarrow> string \<Rightarrow> bool option" where
  "npda_accepts n M string = npda_simulate n M (npda_start_state M) string []"

text \<open>
  The transition relation on configurations (state, remaining input, stack) as the
  specification words it: a transition of the automaton that starts in the current state
  applies when its input requirement matches the head of the input and its pop requirement
  matches the top of the stack; an epsilon requirement always matches and takes nothing.
  The successor pops (at most one symbol), then pushes (at most one symbol), and consumes the
  input head only for a non-epsilon input symbol.
\<close>

inductive npda_step :: "NPDA \<Rightarrow> npda_config \<Rightarrow> npda_config \<Rightarrow> bool" for M where
  npda_stepI:
    "(q, a, pop, push, q') \<in> set (npda_transitions M) \<Longrightarrow>
     (if a = epsilon then inp' = inp else inp = a # inp') \<Longrightarrow>
     (if pop = epsilon then mid = st else st = mid @ [pop]) \<Longrightarrow>
     (if push = epsilon then st' = mid else st' = mid @ [push]) \<Longrightarrow>
     npda_step M (q, inp, st) (q', inp', st')"

definition npda_accepting :: "NPDA \<Rightarrow> npda_config \<Rightarrow> bool" where
  "npda_accepting M c = (case c of (q, inp, st) \<Rightarrow> q \<in> npda_accept_states M \<and> inp = [])"

definition npda_language :: "NPDA \<Rightarrow> string \<Rightarrow> bool" where
  "npda_language M s =
     (\<exists>c. (npda_step M)\<^sup>*\<^sup>* (npda_start_state M, s, []) c \<and> npda_accepting M c)"

definition npda_config_size :: "npda_config \<Rightarrow> nat" where
  "npda_config_size c = (case c of (q, inp, st) \<Rightarrow> length inp + length st)"

text \<open>
  An automaton for the language of the strings \<open>0\<^sup>n1\<^sup>n\<close>, in the shape
  \<^verbatim>\<open>NPDA.from_transitions_and_accept_states\<close> builds it.
\<close>

definition npda_example :: NPDA where
  "npda_example = \<lparr>npda_states = {''p'', ''q'', ''r''},
     npda_input_alphabet = {CHR ''0'', CHR ''1''},
     npda_stack_alphabet = {CHR ''x'', CHR ''z''},
     npda_transitions =
       [(''p'', CHR ''e'', CHR ''e'', CHR ''z'', ''q''),
        (''q'', CHR ''0'', CHR ''e'', CHR ''x'', ''q''),
        (''q'', CHR ''1'', CHR ''x'', CHR ''e'', ''q''),
        (''q'', CHR ''e'', CHR ''z'', CHR ''e'', ''r'')],
     npda_start_state = ''p'',
     npda_accept_states = {''r''}\<rparr>"

section \<open>The grammar engine (cfg.py)\<close>

subsection \<open>Derivation compression\<close>

text \<open>
  \<^verbatim>\<open>CFG.pretty_print_derivation\<close>. \<open>list_index\<close> is Python's \<^verbatim>\<open>list.index\<close>, the position of
  the first occurrence; the source calls it only under the guard \<^verbatim>\<open>count(string) > 1\<close>, so
  the \<^verbatim>\<open>ValueError\<close> of a missing element cannot occur. \<open>collapse_loop\<close> is the body of the
  loop \<^verbatim>\<open>for string in reversed(derivation)\<close>, \<open>minimize_derivation\<close> the whole pass, and
  \<open>pretty_print_derivation\<close> the text that is printed.
\<close>

definition list_index :: "'a list \<Rightarrow> 'a \<Rightarrow> nat" where
  "list_index xs x = length (takeWhile (\<lambda>y. y \<noteq> x) xs)"

definition collapse_loop :: "string \<Rightarrow> string list \<Rightarrow> string list" where
  "collapse_loop string potentially_shorter_derivation =
     (if count_list potentially_shorter_derivation string > 1 then
        let first_idx = list_index potentially_shorter_derivation string;
            last_idx = length potentially_shorter_derivation
                       - list_index (rev potentially_shorter_derivation) string - 1
        in take first_idx potentially_shorter_derivation
           @ drop last_idx potentially_shorter_derivation
      else potentially_shorter_derivation)"

definition minimize_derivation :: "string list \<Rightarrow> string list" where
  "minimize_derivation derivation = fold collapse_loop (rev derivation) derivation"

fun join :: "string \<Rightarrow> string list \<Rightarrow> string" where
  "join sep [] = []"
| "join sep [x] = x"
| "join sep (x # y # ys) = x @ sep @ join sep (y # ys)"

definition pretty_print_derivation :: "string list \<Rightarrow> bool \<Rightarrow> string" where
  "pretty_print_derivation derivation minimize =
     (if length derivation = 0 then ''There is no derivation.''
      else join '' -> '' (if minimize then minimize_derivation derivation else derivation))"

section \<open>Errors\<close>

text \<open>
  A failed \<^verbatim>\<open>assert\<close> raises \<^verbatim>\<open>AssertionError\<close>. The assertions of \<^verbatim>\<open>tm.py\<close> carry a message,
  those of \<^verbatim>\<open>cfg.py\<close> and \<^verbatim>\<open>npda.py\<close> carry none. \<^verbatim>\<open>IndexError\<close> is what a list assignment
  outside the list raises.
\<close>

datatype message =
    NoMessage
  | BlankSymbolMissing
  | SourceNotAState string
  | DestinationNotAState string
  | ReadSymbolNotInAlphabet char
  | WriteSymbolNotInAlphabet char
  | BadDirection char
  | MultipleTransitions string char
  | StartNotAState
  | AcceptNotAState

datatype error = AssertionError message | IndexError

section \<open>The tape automaton (tm.py)\<close>

type_synonym tm_transition = "string \<times> char \<times> char \<times> char \<times> string"

record TM =
  tm_states_except_reject_state :: "string set"
  tm_tape_alphabet :: "char set"
  tm_transitions :: "tm_transition list"
  tm_start_state :: string

text \<open>
  \<^verbatim>\<open>TM.__init__\<close>. \<open>tm_check_transitions\<close> is the loop over the transitions, with the set
  \<^verbatim>\<open>source_and_read_symbols\<close> as an accumulator; it yields the first failed assertion, or
  \<open>None\<close> when the loop runs through.
\<close>

definition tm_key :: "tm_transition \<Rightarrow> string \<times> char" where
  "tm_key t = (case t of (source, read_symbol, write_symbol, direction, destination) \<Rightarrow>
     (source, read_symbol))"

fun tm_check_transitions ::
  "string set \<Rightarrow> char set \<Rightarrow> (string \<times> char) set \<Rightarrow> tm_transition list \<Rightarrow> error option"
where
  "tm_check_transitions states alphabet source_and_read_symbols [] = None"
| "tm_check_transitions states alphabet source_and_read_symbols (t # ts) =
     (case t of (source, read_symbol, write_symbol, direction, destination) \<Rightarrow>
        if source \<notin> states then Some (AssertionError (SourceNotAState source))
        else if destination \<notin> states then Some (AssertionError (DestinationNotAState destination))
        else if read_symbol \<notin> alphabet
          then Some (AssertionError (ReadSymbolNotInAlphabet read_symbol))
        else if write_symbol \<notin> alphabet
          then Some (AssertionError (WriteSymbolNotInAlphabet write_symbol))
        else if direction \<notin> {CHR ''l'', CHR ''r''}
          then Some (AssertionError (BadDirection direction))
        else if (source, read_symbol) \<in> source_and_read_symbols
          then Some (AssertionError (MultipleTransitions source read_symbol))
        else tm_check_transitions states alphabet
               (insert (source, read_symbol) source_and_read_symbols) ts)"

definition TM_init ::
  "string set \<Rightarrow> char set \<Rightarrow> tm_transition list \<Rightarrow> string \<Rightarrow> error + TM" where
  "TM_init states_except_reject_state tape_alphabet transitions start_state =
     (if CHR ''.'' \<notin> tape_alphabet then Inl (AssertionError BlankSymbolMissing)
      else case tm_check_transitions states_except_reject_state tape_alphabet {} transitions of
        Some err \<Rightarrow> Inl err
      | None \<Rightarrow>
          if start_state \<notin> states_except_reject_state then Inl (AssertionError StartNotAState)
          else if ''accept'' \<notin> states_except_reject_state
            then Inl (AssertionError AcceptNotAState)
          else Inr \<lparr>tm_states_except_reject_state = states_except_reject_state,
                    tm_tape_alphabet = tape_alphabet,
                    tm_transitions = transitions,
                    tm_start_state = start_state\<rparr>)"

text \<open>
  The tape is a Python list of one-character strings, the head a Python integer.
  \<^verbatim>\<open>_read_tape\<close> asserts \<^verbatim>\<open>head >= 0\<close>. \<^verbatim>\<open>_write_tape\<close> extends the list with blanks when the
  head is at or beyond its end and then assigns \<^verbatim>\<open>tape[head]\<close>; for a negative head that
  assignment counts from the end of the list and raises \<^verbatim>\<open>IndexError\<close> beyond its start.
\<close>

definition read_tape :: "char list \<Rightarrow> int \<Rightarrow> error + char" where
  "read_tape tape head =
     (if \<not> head \<ge> 0 then Inl (AssertionError NoMessage)
      else if head \<ge> int (length tape) then Inr (CHR ''.'')
      else Inr (tape ! nat head))"

definition write_tape :: "char list \<Rightarrow> int \<Rightarrow> char \<Rightarrow> error + char list" where
  "write_tape tape head symbol =
     (let tape = (if head \<ge> int (length tape)
                  then tape @ replicate (nat (head - int (length tape) + 1)) (CHR ''.'')
                  else tape)
      in if 0 \<le> head then Inr (tape[nat head := symbol])
         else if - int (length tape) \<le> head
           then Inr (tape[nat (int (length tape) + head) := symbol])
         else Inl IndexError)"

text \<open>
  \<^verbatim>\<open>TM._simulate\<close>. \<open>tm_move\<close> is the update of the head, \<open>tm_find\<close> the
  \<^verbatim>\<open>for transition in self.transitions\<close> loop: \<open>Inr None\<close> is its \<^verbatim>\<open>else\<close> branch (no
  transition applies), \<open>Inr (Some (tape, state, head))\<close> the values at the \<^verbatim>\<open>break\<close>.
  \<open>tm_simulate_body\<close> is one activation of \<^verbatim>\<open>_simulate\<close> up to its tail call: it halts with
  a verdict (\<open>Inl\<close>) or hands a configuration to the next activation (\<open>Inr\<close>).
\<close>

type_synonym tm_config = "char list \<times> string \<times> int"

definition tm_move :: "char \<Rightarrow> int \<Rightarrow> int" where
  "tm_move direction head =
     (if direction = CHR ''r'' then head + 1
      else let head = head - 1 in if head < 0 then 0 else head)"

fun tm_find ::
  "tm_transition list \<Rightarrow> char list \<Rightarrow> string \<Rightarrow> int \<Rightarrow> error + tm_config option"
where
  "tm_find [] tape state head = Inr None"
| "tm_find (transition # ts) tape state head =
     (case transition of (src, read, write, direction, dest) \<Rightarrow>
        if src = state then
          (case read_tape tape head of
             Inl err \<Rightarrow> Inl err
           | Inr symbol \<Rightarrow>
               if symbol = read then
                 (case write_tape tape head write of
                    Inl err \<Rightarrow> Inl err
                  | Inr tape \<Rightarrow> Inr (Some (tape, dest, tm_move direction head)))
               else tm_find ts tape state head)
        else tm_find ts tape state head)"

definition tm_simulate_body :: "TM \<Rightarrow> tm_config \<Rightarrow> error + (bool + tm_config)" where
  "tm_simulate_body M c =
     (case c of (tape, state, head) \<Rightarrow>
        if state = ''accept'' then Inr (Inl True)
        else case tm_find (tm_transitions M) tape state head of
          Inl err \<Rightarrow> Inl err
        | Inr None \<Rightarrow> Inr (Inl False)
        | Inr (Some c') \<Rightarrow> Inr (Inr c'))"

fun tm_simulate :: "nat \<Rightarrow> TM \<Rightarrow> char list \<Rightarrow> string \<Rightarrow> int \<Rightarrow> (error + bool) option" where
  "tm_simulate 0 M tape state head = None"
| "tm_simulate (Suc n) M tape state head =
     (case tm_simulate_body M (tape, state, head) of
        Inl err \<Rightarrow> Some (Inl err)
      | Inr (Inl verdict) \<Rightarrow> Some (Inr verdict)
      | Inr (Inr (tape', state', head')) \<Rightarrow> tm_simulate n M tape' state' head')"

definition tm_accepts :: "nat \<Rightarrow> TM \<Rightarrow> string \<Rightarrow> (error + bool) option" where
  "tm_accepts n M string = tm_simulate n M string (tm_start_state M) 0"

text \<open>
  The configurations a simulation passes through: \<open>tm_reach M c c'\<close> holds when the
  activation of \<^verbatim>\<open>_simulate\<close> on \<open>c\<close> leads, by tail calls, to an activation on \<open>c'\<close>.
\<close>

inductive tm_reach :: "TM \<Rightarrow> tm_config \<Rightarrow> tm_config \<Rightarrow> bool" for M where
  tm_reach_refl: "tm_reach M c c"
| tm_reach_step: "tm_reach M c c' \<Longrightarrow> tm_simulate_body M c' = Inr (Inr c'') \<Longrightarrow> tm_reach M c c''"

text \<open>A machine that accepts the strings of the form \<open>0\<^sup>n\<close> with \<open>n\<close> even.\<close>

definition tm_example_transitions :: "tm_transition list" where
  "tm_example_transitions =
     [(''even'', CHR ''0'', CHR ''0'', CHR ''r'', ''odd''),
      (''odd'', CHR ''0'', CHR ''0'', CHR ''r'', ''even''),
      (''even'', CHR ''.'', CHR ''.'', CHR ''l'', ''accept'')]"

definition tm_example :: TM where
  "tm_example = \<lparr>tm_states_except_reject_state = {''even'', ''odd'', ''accept''},
     tm_tape_alphabet = {CHR ''0'', CHR ''.''},
     tm_transitions = tm_example_transitions,
     tm_start_state = ''even''\<rparr>"

subsection \<open>Grammars\<close>

text \<open>
  A rule is a pair of the left-hand side variable and the right-hand side string. The
  character classes are the comparisons of the source: \<^verbatim>\<open>"A" <= s <= "Z"\<close>,
  \<^verbatim>\<open>"a" <= s <= "z"\<close> and \<^verbatim>\<open>"0" <= s <= "9"\<close>.
\<close>

type_synonym rule = "char \<times> string"

record CFG =
  cfg_variables :: "char set"
  cfg_terminals :: "char set"
  cfg_rules :: "rule list"
  cfg_start_variable :: char

definition is_upper :: "char \<Rightarrow> bool" where
  "is_upper s = (CHR ''A'' \<le> s \<and> s \<le> CHR ''Z'')"

definition is_lower :: "char \<Rightarrow> bool" where
  "is_lower s = (CHR ''a'' \<le> s \<and> s \<le> CHR ''z'')"

definition is_digit :: "char \<Rightarrow> bool" where
  "is_digit s = (CHR ''0'' \<le> s \<and> s \<le> CHR ''9'')"

text \<open>
  \<^verbatim>\<open>CFG.__init__\<close>: each condition is one \<^verbatim>\<open>assert\<close> of the constructor (the two loops over
  the rules and over the variables are written as quantifiers; every assertion raises the
  same error, so their order inside a loop does not show).
\<close>

definition CFG_init :: "char set \<Rightarrow> char set \<Rightarrow> rule list \<Rightarrow> char \<Rightarrow> error + CFG" where
  "CFG_init variables terminals rules start_variable =
     (if start_variable \<notin> variables then Inl (AssertionError NoMessage)
      else if variables \<inter> terminals \<noteq> {} then Inl (AssertionError NoMessage)
      else if epsilon \<in> terminals then Inl (AssertionError NoMessage)
      else if \<not> (\<forall>s \<in> variables. is_upper s) then Inl (AssertionError NoMessage)
      else if \<not> (\<forall>s \<in> terminals. is_lower s \<or> is_digit s) then Inl (AssertionError NoMessage)
      else if \<not> (\<forall>rule \<in> set rules. fst rule \<in> variables \<and>
                  (\<forall>symbol \<in> set (snd rule). symbol \<in> {epsilon} \<union> (variables \<union> terminals)))
        then Inl (AssertionError NoMessage)
      else if \<not> (\<forall>variable \<in> variables. \<exists>rule \<in> set rules. variable = fst rule)
        then Inl (AssertionError NoMessage)
      else Inr \<lparr>cfg_variables = variables, cfg_terminals = terminals,
                cfg_rules = rules, cfg_start_variable = start_variable\<rparr>)"

subsection \<open>The derivation search\<close>

text \<open>
  The static helpers \<^verbatim>\<open>_count_terminals\<close>, \<^verbatim>\<open>_count_variables\<close>, \<^verbatim>\<open>_find_leftmost_variable\<close>
  (which ends in \<^verbatim>\<open>assert False\<close> when the string has no capital letter) and \<^verbatim>\<open>_apply_rule\<close>
  (\<^verbatim>\<open>replace(lhs, rhs, 1)\<close> rewrites the first occurrence only), the method \<^verbatim>\<open>_find_rules\<close>,
  and \<^verbatim>\<open>replace("e", "")\<close> as \<open>remove_epsilons\<close>.
\<close>

definition count_terminals :: "string \<Rightarrow> nat" where
  "count_terminals string =
     length (filter (\<lambda>s. is_digit s \<or> (is_lower s \<and> s \<noteq> epsilon)) string)"

definition count_variables :: "string \<Rightarrow> nat" where
  "count_variables string = length (filter is_upper string)"

fun find_leftmost_variable :: "string \<Rightarrow> error + char" where
  "find_leftmost_variable [] = Inl (AssertionError NoMessage)"
| "find_leftmost_variable (s # string) =
     (if is_upper s then Inr s else find_leftmost_variable string)"

fun replace_first :: "char \<Rightarrow> string \<Rightarrow> string \<Rightarrow> string" where
  "replace_first lhs rhs [] = []"
| "replace_first lhs rhs (s # string) =
     (if s = lhs then rhs @ string else s # replace_first lhs rhs string)"

definition apply_rule :: "string \<Rightarrow> rule \<Rightarrow> error + string" where
  "apply_rule current_string rule =
     (case rule of (lhs, rhs) \<Rightarrow>
        if lhs \<notin> set current_string then Inl (AssertionError NoMessage)
        else Inr (replace_first lhs rhs current_string))"

definition find_rules :: "CFG \<Rightarrow> char \<Rightarrow> error + rule list" where
  "find_rules G variable =
     (if variable \<notin> cfg_variables G then Inl (AssertionError NoMessage)
      else Inr (filter (\<lambda>rule. fst rule = variable) (cfg_rules G)))"

definition remove_epsilons :: "string \<Rightarrow> string" where
  "remove_epsilons string = filter (\<lambda>s. s \<noteq> epsilon) string"

text \<open>
  \<^verbatim>\<open>CFG.leftmost_derive\<close>. The set \<^verbatim>\<open>pool\<close> is one mutable object shared by all the calls of
  a search; here every call takes the pool and returns it, updated, next to the derivation.
  \<open>leftmost_derive\<close> is the function body, \<open>leftmost_derive_loop\<close> the loop
  \<^verbatim>\<open>for appropriate_rule in appropriate_rules\<close> over the rules that are still to be tried.
  An empty derivation is the source's negative answer.
\<close>

type_synonym search_result = "(error + string list \<times> string set) option"

function (sequential)
  leftmost_derive ::
    "nat \<Rightarrow> CFG \<Rightarrow> string \<Rightarrow> string \<Rightarrow> int \<Rightarrow> string set \<Rightarrow> string list \<Rightarrow> search_result"
  and leftmost_derive_loop ::
    "nat \<Rightarrow> CFG \<Rightarrow> rule list \<Rightarrow> string \<Rightarrow> string \<Rightarrow> int \<Rightarrow> string set \<Rightarrow> string list
       \<Rightarrow> search_result"
where
  "leftmost_derive 0 G current_string string max_variable_count pool current_derivation = None"
| "leftmost_derive (Suc n) G current_string string max_variable_count pool current_derivation =
     (if current_string \<in> pool then Some (Inr ([], pool))
      else
        let pool = insert current_string pool in
        if int (count_variables current_string) > max_variable_count then Some (Inr ([], pool))
        else
          let current_string = remove_epsilons current_string;
              string = remove_epsilons string in
          if length string \<noteq> count_terminals string then Some (Inl (AssertionError NoMessage))
          else
            let terminal_count = count_terminals current_string in
            if terminal_count > length string then Some (Inr ([], pool))
            else if terminal_count = length current_string then
              (if current_string = string
               then Some (Inr (current_derivation @ [current_string], pool))
               else Some (Inr ([], pool)))
            else
              (case find_leftmost_variable current_string of
                 Inl err \<Rightarrow> Some (Inl err)
               | Inr leftmost_variable \<Rightarrow>
                   (case find_rules G leftmost_variable of
                      Inl err \<Rightarrow> Some (Inl err)
                    | Inr appropriate_rules \<Rightarrow>
                        leftmost_derive_loop n G appropriate_rules current_string string
                          max_variable_count pool current_derivation)))"
| "leftmost_derive_loop n G [] current_string string max_variable_count pool
       current_derivation = Some (Inr ([], pool))"
| "leftmost_derive_loop n G (appropriate_rule # rs) current_string string max_variable_count pool
       current_derivation =
     (case apply_rule current_string appropriate_rule of
        Inl err \<Rightarrow> Some (Inl err)
      | Inr next_string \<Rightarrow>
          (case leftmost_derive n G next_string string max_variable_count pool
                  (current_derivation @ [current_string]) of
             None \<Rightarrow> None
           | Some (Inl err) \<Rightarrow> Some (Inl err)
           | Some (Inr (derivation, pool)) \<Rightarrow>
               if length derivation \<noteq> 0 then Some (Inr (derivation, pool))
               else leftmost_derive_loop n G rs current_string string max_variable_count pool
                      current_derivation))"
  by pat_completeness auto
termination
  by (relation "inv_image (less_than <*lex*> less_than)
        (\<lambda>x. case x of Inl (n, G, c, s, m, p, d) \<Rightarrow> (n, 0)
                  | Inr (n, G, rs, c, s, m, p, d) \<Rightarrow> (n, Suc (length rs)))") auto

text \<open>
  \<^verbatim>\<open>CFG.derive\<close> and \<^verbatim>\<open>CFG.generate\<close>. The four assertions of \<^verbatim>\<open>derive\<close> are kept as the
  source has them: the first one tests \<^verbatim>\<open>string\<close>, although its comment speaks of the current
  string. \<open>returned_derivation\<close> drops the pool, which the caller of \<^verbatim>\<open>leftmost_derive\<close> never
  sees.
\<close>

definition returned_derivation :: "search_result \<Rightarrow> (error + string list) option" where
  "returned_derivation r = map_option (map_sum id fst) r"

definition derive :: "nat \<Rightarrow> CFG \<Rightarrow> string \<Rightarrow> string \<Rightarrow> int \<Rightarrow> (error + string list) option" where
  "derive n G current_string string max_variable_count =
     (if \<not> (\<forall>s \<in> set string. is_upper s \<or> is_lower s \<or> is_digit s)
        then Some (Inl (AssertionError NoMessage))
      else if \<not> (\<forall>s \<in> set current_string. s \<noteq> epsilon)
        then Some (Inl (AssertionError NoMessage))
      else if \<not> (\<forall>s \<in> set string. is_lower s \<or> is_digit s)
        then Some (Inl (AssertionError NoMessage))
      else if \<not> (\<forall>s \<in> set string. s \<noteq> epsilon)
        then Some (Inl (AssertionError NoMessage))
      else returned_derivation
             (leftmost_derive n G current_string string max_variable_count {} []))"

definition generate :: "nat \<Rightarrow> CFG \<Rightarrow> string \<Rightarrow> int \<Rightarrow> (error + string list) option" where
  "generate n G string max_variable_count =
     (if \<not> (\<forall>s \<in> set string. is_lower s \<or> is_digit s)
        then Some (Inl (AssertionError NoMessage))
      else if \<not> (\<forall>s \<in> set string. s \<noteq> epsilon)
        then Some (Inl (AssertionError NoMessage))
      else derive n G [cfg_start_variable G] string max_variable_count)"

text \<open>
  Leftmost derivations as the specification words them. One step rewrites the leftmost
  variable occurrence (the first capital letter, with no capital letter before it) by the
  right-hand side of a rule for that variable, epsilon symbols standing for nothing. A
  derivation is a list of strings in which each string yields the next by one such step.
  A target string is a string of lowercase letters and digits without the epsilon letter.
\<close>

definition leftmost_step :: "CFG \<Rightarrow> string \<Rightarrow> string \<Rightarrow> bool" where
  "leftmost_step G x y =
     (\<exists>u A v rhs. x = u @ A # v \<and> (\<forall>s \<in> set u. \<not> is_upper s) \<and> is_upper A \<and>
        (A, rhs) \<in> set (cfg_rules G) \<and> y = u @ remove_epsilons rhs @ v)"

definition leftmost_derivation :: "CFG \<Rightarrow> string list \<Rightarrow> bool" where
  "leftmost_derivation G ds =
     (\<forall>i. Suc i < length ds \<longrightarrow> leftmost_step G (ds ! i) (ds ! Suc i))"

definition bounded_derivation :: "CFG \<Rightarrow> int \<Rightarrow> string \<Rightarrow> string \<Rightarrow> string list \<Rightarrow> bool" where
  "bounded_derivation G max_variable_count start target ds =
     (ds \<noteq> [] \<and> hd ds = start \<and> last ds = target \<and> leftmost_derivation G ds \<and>
      (\<forall>x \<in> set ds. int (count_variables x) \<le> max_variable_count))"

definition target_string :: "string \<Rightarrow> bool" where
  "target_string string = (\<forall>s \<in> set string. (is_lower s \<or> is_digit s) \<and> s \<noteq> epsilon)"

text \<open>The grammar of the strings \<open>0\<^sup>n1\<^sup>n\<close>: \<^verbatim>\<open>S > 0S1 | e\<close>.\<close>

definition cfg_example :: CFG where
  "cfg_example = \<lparr>cfg_variables = {CHR ''S''}, cfg_terminals = {CHR ''0'', CHR ''1''},
     cfg_rules = [(CHR ''S'', ''0S1''), (CHR ''S'', ''e'')],
     cfg_start_variable = CHR ''S''\<rparr>"

text \<open>
  Vocabulary for the analysis of the search. \<open>well_formed\<close> collects what the assertions of
  \<^verbatim>\<open>CFG.__init__\<close> establish about a grammar. \<open>current_string G x\<close> says that the string
  \<open>x\<close> is made of variables of \<open>G\<close>, lowercase letters other than the epsilon letter, and
  digits; \<open>sentential G x\<close> allows the epsilon letter as well, as the right-hand sides of the
  rules bring it in.
\<close>

definition well_formed :: "CFG \<Rightarrow> bool" where
  "well_formed G =
     (cfg_start_variable G \<in> cfg_variables G \<and>
      (\<forall>s \<in> cfg_variables G. is_upper s) \<and>
      (\<forall>s \<in> cfg_terminals G. (is_lower s \<or> is_digit s) \<and> s \<noteq> epsilon) \<and>
      (\<forall>rule \<in> set (cfg_rules G). fst rule \<in> cfg_variables G \<and>
         set (snd rule) \<subseteq> insert epsilon (cfg_variables G \<union> cfg_terminals G)))"

definition current_string :: "CFG \<Rightarrow> string \<Rightarrow> bool" where
  "current_string G x =
     (\<forall>c \<in> set x. c \<in> cfg_variables G \<or> ((is_lower c \<or> is_digit c) \<and> c \<noteq> epsilon))"

definition sentential :: "CFG \<Rightarrow> string \<Rightarrow> bool" where
  "sentential G x =
     (\<forall>c \<in> set x. c = epsilon \<or> c \<in> cfg_variables G \<or> is_lower c \<or> is_digit c)"

definition rhs_bound :: "CFG \<Rightarrow> nat" where
  "rhs_bound G = sum_list (map (\<lambda>rule. length (snd rule)) (cfg_rules G))"

text \<open>
  The graph that the search explores, for a bound \<open>mx\<close> and a target \<open>s\<close>. Its nodes are
  the current strings. A node is live when neither prune rejects it, a goal when it is live,
  has no variable and strips to the stripped target, and the successors of a live node with a
  variable are the strings that the rules of its leftmost variable produce.
  \<open>search_closed G mx s P Q\<close> says that no node of \<open>Q\<close> is a goal and that all successors
  of the nodes of \<open>Q\<close> lie in \<open>P\<close>.
\<close>

definition search_live :: "int \<Rightarrow> string \<Rightarrow> string \<Rightarrow> bool" where
  "search_live mx s x =
     (int (count_variables x) \<le> mx \<and>
      count_terminals (remove_epsilons x) \<le> length (remove_epsilons s))"

definition search_goal :: "int \<Rightarrow> string \<Rightarrow> string \<Rightarrow> bool" where
  "search_goal mx s x =
     (search_live mx s x \<and> count_terminals (remove_epsilons x) = length (remove_epsilons x) \<and>
      remove_epsilons x = remove_epsilons s)"

definition search_successors :: "CFG \<Rightarrow> int \<Rightarrow> string \<Rightarrow> string \<Rightarrow> string set" where
  "search_successors G mx s x =
     (if search_live mx s x \<and> count_terminals (remove_epsilons x) \<noteq> length (remove_epsilons x)
      then {nxt. \<exists>A r. find_leftmost_variable (remove_epsilons x) = Inr A \<and>
                   r \<in> set (cfg_rules G) \<and> fst r = A \<and>
                   apply_rule (remove_epsilons x) r = Inr nxt}
      else {})"

definition search_closed :: "CFG \<Rightarrow> int \<Rightarrow> string \<Rightarrow> string set \<Rightarrow> string set \<Rightarrow> bool" where
  "search_closed G mx s P Q =
     (\<forall>x \<in> Q. \<not> search_goal mx s x \<and> search_successors G mx s x \<subseteq> P)"

section \<open>Reading description files\<close>














section \<open>Properties of the stack automaton\<close>

lemma npda_apply_transition_step:
  assumes "npda_apply_transition t q inp st = Some c'" and "t \<in> set (npda_transitions M)"
  shows "npda_step M (q, inp, st) c'"
proof -
  obtain src a pop push dst where t: "t = (src, a, pop, push, dst)"
    by (cases t) auto
  from assms(1) have src: "src = q"
    and inp: "a = epsilon \<or> (inp \<noteq> [] \<and> hd inp = a)"
    and st: "pop = epsilon \<or> (st \<noteq> [] \<and> last st = pop)"
    and c': "c' = (dst, (if a \<noteq> epsilon then tl inp else inp),
        (if push \<noteq> epsilon then (if pop \<noteq> epsilon then butlast st else st) @ [push]
         else (if pop \<noteq> epsilon then butlast st else st)))"
    by (auto simp: npda_apply_transition_def t Let_def split: if_splits)
  have 1: "if a = epsilon then (if a \<noteq> epsilon then tl inp else inp) = inp
           else inp = a # (if a \<noteq> epsilon then tl inp else inp)"
    using inp by (cases inp) auto
  have 2: "if pop = epsilon then (if pop \<noteq> epsilon then butlast st else st) = st
           else st = (if pop \<noteq> epsilon then butlast st else st) @ [pop]"
    using st by auto
  show ?thesis
    unfolding c'
    by (rule npda_stepI[OF assms(2)[unfolded t src] 1 2]) auto
qed

lemma npda_step_apply_transition:
  assumes "npda_step M (q, inp, st) c'"
  shows "\<exists>t \<in> set (npda_transitions M). npda_apply_transition t q inp st = Some c'"
  using assms
proof (cases rule: npda_step.cases)
  case (npda_stepI a pop push q' inp' mid st')
  have "npda_apply_transition (q, a, pop, push, q') q inp st = Some c'"
    using npda_stepI(3-5) unfolding npda_stepI(1)
    by (auto simp: npda_apply_transition_def Let_def split: if_splits)
  with npda_stepI(2) show ?thesis by blast
qed

lemma npda_simulate_sound:
  "npda_simulate n M q inp st = Some True \<Longrightarrow>
     \<exists>c. (npda_step M)\<^sup>*\<^sup>* (q, inp, st) c \<and> npda_accepting M c"
  "npda_simulate_loop n M ts q inp st = Some True \<Longrightarrow> set ts \<subseteq> set (npda_transitions M) \<Longrightarrow>
     \<exists>c. (npda_step M)\<^sup>*\<^sup>* (q, inp, st) c \<and> npda_accepting M c"
proof (induction n M q inp st and n M ts q inp st rule: npda_simulate_npda_simulate_loop.induct)
  case (1 M state remaining_input stack)
  then show ?case by simp
next
  case (2 n M state remaining_input stack)
  show ?case
  proof (cases "state \<in> npda_accept_states M \<and> remaining_input = []")
    case True
    then have "npda_accepting M (state, remaining_input, stack)"
      by (simp add: npda_accepting_def)
    then show ?thesis by blast
  next
    case False
    with 2 show ?thesis by simp
  qed
next
  case (3 n M state remaining_input stack)
  then show ?case by simp
next
  case (4 n M transition ts state remaining_input stack)
  show ?case
  proof (cases "npda_apply_transition transition state remaining_input stack")
    case None
    with 4 show ?thesis by simp
  next
    case (Some c')
    obtain d ni ns where c': "c' = (d, ni, ns)" by (cases c') auto
    have step: "npda_step M (state, remaining_input, stack) (d, ni, ns)"
      using npda_apply_transition_step[OF Some] "4.prems"(2) c' by simp
    show ?thesis
    proof (cases "npda_simulate n M d ni ns")
      case None
      with "4.prems" Some c' show ?thesis by simp
    next
      case (Some b)
      show ?thesis
      proof (cases b)
        case True
        with Some have "\<exists>c. (npda_step M)\<^sup>*\<^sup>* (d, ni, ns) c \<and> npda_accepting M c"
          using "4.IH"(2)[OF \<open>npda_apply_transition transition state remaining_input stack = Some c'\<close> c'[symmetric] refl]
          by simp
        then show ?thesis using step by (meson converse_rtranclp_into_rtranclp)
      next
        case False
        with Some "4.prems" \<open>npda_apply_transition transition state remaining_input stack = Some c'\<close> c'
        show ?thesis using "4.IH"(3) by simp
      qed
    qed
  qed
qed


lemma npda_simulate_complete:
  "npda_simulate n M q inp st = Some False \<Longrightarrow>
     (npda_step M)\<^sup>*\<^sup>* (q, inp, st) c \<Longrightarrow> \<not> npda_accepting M c"
  "npda_simulate_loop n M ts q inp st = Some False \<Longrightarrow> t \<in> set ts \<Longrightarrow>
     npda_apply_transition t q inp st = Some c' \<Longrightarrow>
     (npda_step M)\<^sup>*\<^sup>* c' c \<Longrightarrow> \<not> npda_accepting M c"
proof (induction n M q inp st and n M ts q inp st arbitrary: c and c c' t
    rule: npda_simulate_npda_simulate_loop.induct)
  case (1 M state remaining_input stack)
  then show ?case by simp
next
  case (2 n M state remaining_input stack)
  from "2.prems"(1) have na: "\<not> (state \<in> npda_accept_states M \<and> remaining_input = [])"
    and loop: "npda_simulate_loop n M (npda_transitions M) state remaining_input stack = Some False"
    by (auto split: if_splits)
  from "2.prems"(2) show ?case
  proof (cases rule: converse_rtranclpE)
    case base
    then show ?thesis using na by (auto simp: npda_accepting_def)
  next
    case (step y)
    from npda_step_apply_transition[OF step(1)] obtain t where
      t: "t \<in> set (npda_transitions M)"
      "npda_apply_transition t state remaining_input stack = Some y"
      by blast
    show ?thesis using "2.IH"[OF na loop t step(2)] .
  qed
next
  case (3 n M state remaining_input stack)
  then show ?case by simp
next
  case (4 n M transition ts state remaining_input stack)
  show ?case
  proof (cases "npda_apply_transition transition state remaining_input stack")
    case None
    with "4.prems" have "t \<in> set ts"
      and "npda_simulate_loop n M ts state remaining_input stack = Some False"
      by auto
    then show ?thesis using "4.IH"(1)[OF None] "4.prems"(3,4) by blast
  next
    case (Some y)
    obtain d ni ns where y: "y = (d, ni, ns)" by (cases y) auto
    from "4.prems"(1) Some y have sim: "npda_simulate n M d ni ns = Some False"
      and loop: "npda_simulate_loop n M ts state remaining_input stack = Some False"
      by (auto split: option.splits bool.splits)
    show ?thesis
    proof (cases "t = transition")
      case True
      with Some "4.prems"(3) y have "c' = (d, ni, ns)" by simp
      then show ?thesis
        using "4.IH"(2)[OF Some y[symmetric] refl sim] "4.prems"(4) by simp
    next
      case False
      with "4.prems"(2) have "t \<in> set ts" by simp
      then show ?thesis
        using "4.IH"(3)[OF Some y[symmetric] refl sim refl loop _ "4.prems"(3,4)] by simp
    qed
  qed
qed

text \<open>
  Claim C2. Whenever the recursive search of \<^verbatim>\<open>accepts\<close> returns on an input \<open>s\<close> (it is not
  cut off by the recursion budget), it returns \<open>True\<close> exactly when some sequence of applicable
  transitions leads from the start state with the empty stack and the whole input to a
  configuration in an accept state with no input left, whatever the stack holds there.
\<close>

theorem npda_accepts_iff_run:
  assumes "npda_accepts n M s = Some b"
  shows "b \<longleftrightarrow> npda_language M s"
proof (cases b)
  case True
  with assms show ?thesis
    using npda_simulate_sound(1)[of n M "npda_start_state M" s "[]"]
    by (simp add: npda_accepts_def npda_language_def)
next
  case False
  with assms show ?thesis
    using npda_simulate_complete(1)[of n M "npda_start_state M" s "[]"]
    by (auto simp: npda_accepts_def npda_language_def)
qed

theorem npda_accepts_iff_run_witness:
  "npda_accepts 5 npda_example ''01'' = Some True \<and> npda_language npda_example ''01''"
proof -
  have h: "npda_accepts 5 npda_example ''01'' = Some True" by code_simp
  from npda_accepts_iff_run[OF h] h show ?thesis by simp
qed

text \<open>
  Claim C7, as stated: the sum of the lengths of the remaining input and of the stack differs
  by at most 1 across a transition. It fails for a transition that consumes an input symbol
  and pops a stack symbol without pushing: the sum drops by 2.
\<close>

theorem npda_net_change_counterexample:
  "npda_apply_transition (''q'', CHR ''1'', CHR ''x'', CHR ''e'', ''q'') ''q'' ''1'' ''x''
     = Some (''q'', [], []) \<and>
   \<not> \<bar>int (npda_config_size (''q'', [], [])) - int (npda_config_size (''q'', ''1'', ''x''))\<bar> \<le> 1"
  by (simp add: npda_apply_transition_def npda_config_size_def epsilon_def)

text \<open>
  Claim C7, amended. Across every applicable transition the sum of the two lengths grows by
  at most 1 and shrinks by at most 2: the input loses at most one symbol and never grows, and
  the stack loses at most one symbol and gains at most one.
\<close>

theorem npda_net_change:
  assumes "npda_apply_transition t q inp st = Some (q', inp', st')"
  shows "npda_config_size (q', inp', st') \<le> npda_config_size (q, inp, st) + 1 \<and>
         npda_config_size (q, inp, st) \<le> npda_config_size (q', inp', st') + 2 \<and>
         length inp' \<le> length inp \<and> length inp \<le> length inp' + 1 \<and>
         length st \<le> length st' + 1 \<and> length st' \<le> length st + 1"
proof -
  obtain src a pop push dst where t: "t = (src, a, pop, push, dst)"
    by (cases t) auto
  from assms have inp': "inp' = (if a \<noteq> epsilon then tl inp else inp)"
    and st': "st' = (if push \<noteq> epsilon then (if pop \<noteq> epsilon then butlast st else st) @ [push]
         else (if pop \<noteq> epsilon then butlast st else st))"
    by (auto simp: npda_apply_transition_def t Let_def split: if_splits)
  have "length inp' \<le> length inp" "length inp \<le> length inp' + 1"
    "length st \<le> length st' + 1" "length st' \<le> length st + 1"
    by (auto simp: inp' st')
  then show ?thesis by (simp add: npda_config_size_def)
qed

theorem npda_net_change_witness:
  "npda_apply_transition (''q'', CHR ''0'', CHR ''e'', CHR ''x'', ''q'') ''q'' ''01'' ''z''
     = Some (''q'', ''1'', ''zx'') \<and>
   npda_config_size (''q'', ''1'', ''zx'') \<le> npda_config_size (''q'', ''01'', ''z'') + 1"
proof -
  have h: "npda_apply_transition (''q'', CHR ''0'', CHR ''e'', CHR ''x'', ''q'') ''q'' ''01'' ''z''
     = Some (''q'', ''1'', ''zx'')"
    by (simp add: npda_apply_transition_def epsilon_def)
  from npda_net_change[OF h] h show ?thesis by simp
qed

section \<open>Properties of the derivation compression\<close>























section \<open>Properties of the tape automaton\<close>

lemma tm_check_transitions_None:
  "tm_check_transitions S A seen ts = None \<Longrightarrow>
     distinct (map tm_key ts) \<and> (\<forall>t \<in> set ts. tm_key t \<notin> seen)"
proof (induction ts arbitrary: seen)
  case Nil
  then show ?case by simp
next
  case (Cons t ts)
  obtain src rd wr dir dst where t: "t = (src, rd, wr, dir, dst)" by (cases t) auto
  from Cons.prems have ns: "(src, rd) \<notin> seen"
    and rest: "tm_check_transitions S A (insert (src, rd) seen) ts = None"
    by (auto simp: t split: if_splits)
  from Cons.IH[OF rest] have "distinct (map tm_key ts)"
    and "\<forall>u \<in> set ts. tm_key u \<notin> insert (src, rd) seen" by auto
  moreover have "tm_key t = (src, rd)" by (simp add: t tm_key_def)
  ultimately show ?case using ns by auto
qed

lemma tm_check_transitions_Some:
  "tm_check_transitions S A seen ts = Some err \<Longrightarrow> \<exists>m. err = AssertionError m \<and> m \<noteq> NoMessage"
proof (induction ts arbitrary: seen)
  case Nil
  then show ?case by simp
next
  case (Cons t ts)
  obtain src rd wr dir dst where t: "t = (src, rd, wr, dir, dst)" by (cases t) auto
  from Cons.prems Cons.IH show ?case
    by (auto simp: t split: if_splits)
qed

lemma distinct_map_filter_le_1:
  "distinct (map f xs) \<Longrightarrow> length (filter (\<lambda>x. f x = k) xs) \<le> 1"
proof (induction xs)
  case Nil
  then show ?case by simp
next
  case (Cons x xs)
  show ?case
  proof (cases "f x = k")
    case True
    with Cons.prems have "\<forall>y \<in> set xs. f y \<noteq> k" by (auto simp: image_iff)
    then have "filter (\<lambda>x. f x = k) xs = []" by (simp add: filter_empty_conv)
    with True show ?thesis by simp
  next
    case False
    with Cons show ?thesis by simp
  qed
qed

lemma TM_init_Inl:
  "TM_init S A ts start = Inl err \<Longrightarrow> \<exists>m. err = AssertionError m \<and> m \<noteq> NoMessage"
  by (auto simp: TM_init_def split: if_splits option.splits dest: tm_check_transitions_Some)

lemma TM_init_Inr:
  "TM_init S A ts start = Inr M \<Longrightarrow>
     tm_transitions M = ts \<and> tm_check_transitions S A {} ts = None"
  by (auto simp: TM_init_def split: if_splits option.splits)

text \<open>
  Claim C4. The constructor of the TM fails, with an assertion that carries a message, whenever
  the transitions contain two different transitions with the same source state and the same
  read symbol. Hence in every machine the constructor returns, at most one transition has a
  given source state and read symbol: at each step of a simulation at most one transition
  applies.
\<close>

theorem TM_init_deterministic:
  "(t1 \<in> set ts \<and> t2 \<in> set ts \<and> t1 \<noteq> t2 \<and> tm_key t1 = tm_key t2 \<longrightarrow>
      (\<exists>m. TM_init S A ts start = Inl (AssertionError m) \<and> m \<noteq> NoMessage)) \<and>
   (TM_init S A ts start = Inr M \<longrightarrow>
      length (filter (\<lambda>t. tm_key t = (state, symbol)) (tm_transitions M)) \<le> 1)"
proof (intro conjI impI)
  assume a: "t1 \<in> set ts \<and> t2 \<in> set ts \<and> t1 \<noteq> t2 \<and> tm_key t1 = tm_key t2"
  show "\<exists>m. TM_init S A ts start = Inl (AssertionError m) \<and> m \<noteq> NoMessage"
  proof (cases "TM_init S A ts start")
    case (Inl err)
    with TM_init_Inl[OF Inl] show ?thesis by auto
  next
    case (Inr M)
    from TM_init_Inr[OF Inr] have "distinct (map tm_key ts)"
      using tm_check_transitions_None by blast
    then have "inj_on tm_key (set ts)" by (simp add: distinct_map)
    with a have False by (auto dest: inj_onD)
    then show ?thesis ..
  qed
next
  assume "TM_init S A ts start = Inr M"
  from TM_init_Inr[OF this] have "distinct (map tm_key (tm_transitions M))"
    using tm_check_transitions_None by blast
  then show "length (filter (\<lambda>t. tm_key t = (state, symbol)) (tm_transitions M)) \<le> 1"
    by (rule distinct_map_filter_le_1)
qed


theorem TM_init_deterministic_witness:
  "(''q'', CHR ''0'', CHR ''0'', CHR ''r'', ''q'') \<in> set
      [(''q'', CHR ''0'', CHR ''0'', CHR ''r'', ''q''),
       (''q'', CHR ''0'', CHR ''.'', CHR ''r'', ''accept'')] \<and>
   (''q'', CHR ''0'', CHR ''.'', CHR ''r'', ''accept'') \<in> set
      [(''q'', CHR ''0'', CHR ''0'', CHR ''r'', ''q''),
       (''q'', CHR ''0'', CHR ''.'', CHR ''r'', ''accept'')] \<and>
   (''q'', CHR ''0'', CHR ''0'', CHR ''r'', ''q'') \<noteq> (''q'', CHR ''0'', CHR ''.'', CHR ''r'', ''accept'') \<and>
   tm_key (''q'', CHR ''0'', CHR ''0'', CHR ''r'', ''q'')
     = tm_key (''q'', CHR ''0'', CHR ''.'', CHR ''r'', ''accept'') \<and>
   TM_init {''q'', ''accept''} {CHR ''0'', CHR ''.''}
      [(''q'', CHR ''0'', CHR ''0'', CHR ''r'', ''q''),
       (''q'', CHR ''0'', CHR ''.'', CHR ''r'', ''accept'')] ''q''
     = Inl (AssertionError (MultipleTransitions ''q'' (CHR ''0''))) \<and>
   TM_init {''even'', ''odd'', ''accept''} {CHR ''0'', CHR ''.''} tm_example_transitions ''even''
     = Inr tm_example \<and>
   length (filter (\<lambda>t. tm_key t = (''even'', CHR ''0'')) (tm_transitions tm_example)) \<le> 1"
proof -
  let ?t1 = "(''q'', CHR ''0'', CHR ''0'', CHR ''r'', ''q'')"
  let ?t2 = "(''q'', CHR ''0'', CHR ''.'', CHR ''r'', ''accept'')"
  have h1: "?t1 \<in> set [?t1, ?t2] \<and> ?t2 \<in> set [?t1, ?t2] \<and> ?t1 \<noteq> ?t2 \<and> tm_key ?t1 = tm_key ?t2"
    by (simp add: tm_key_def)
  have h2: "TM_init {''even'', ''odd'', ''accept''} {CHR ''0'', CHR ''.''}
      tm_example_transitions ''even'' = Inr tm_example"
    by (simp add: TM_init_def tm_example_def tm_example_transitions_def)
  have e: "TM_init {''q'', ''accept''} {CHR ''0'', CHR ''.''} [?t1, ?t2] ''q''
     = Inl (AssertionError (MultipleTransitions ''q'' (CHR ''0'')))"
    by (simp add: TM_init_def)
  from TM_init_deterministic[of ?t1 "[?t1, ?t2]" ?t2 "{''q'', ''accept''}"
      "{CHR ''0'', CHR ''.''}" "''q''"] h1
  have "\<exists>m. TM_init {''q'', ''accept''} {CHR ''0'', CHR ''.''} [?t1, ?t2] ''q''
     = Inl (AssertionError m) \<and> m \<noteq> NoMessage" by blast
  moreover from TM_init_deterministic[of _ tm_example_transitions _ "{''even'', ''odd'', ''accept''}"
      "{CHR ''0'', CHR ''.''}" "''even''" tm_example "''even''" "CHR ''0''"] h2
  have "length (filter (\<lambda>t. tm_key t = (''even'', CHR ''0'')) (tm_transitions tm_example)) \<le> 1"
    by blast
  ultimately show ?thesis using h1 h2 e by blast
qed

lemma tm_move_nonneg: "0 \<le> head \<Longrightarrow> 0 \<le> tm_move direction head"
  by (simp add: tm_move_def Let_def)

lemma read_tape_nonneg: "0 \<le> head \<Longrightarrow> \<exists>c. read_tape tape head = Inr c"
  by (simp add: read_tape_def)

lemma write_tape_nonneg: "0 \<le> head \<Longrightarrow> \<exists>tape'. write_tape tape head symbol = Inr tape'"
  by (simp add: write_tape_def Let_def)

lemma tm_find_nonneg:
  assumes "0 \<le> head"
  shows "(\<forall>err. tm_find ts tape state head \<noteq> Inl err) \<and>
         (\<forall>tape' state' head'. tm_find ts tape state head = Inr (Some (tape', state', head'))
            \<longrightarrow> 0 \<le> head')"
proof (induction ts)
  case Nil
  then show ?case by simp
next
  case (Cons t ts)
  obtain src rd wr dir dst where t: "t = (src, rd, wr, dir, dst)" by (cases t) auto
  from read_tape_nonneg[OF assms] obtain c where c: "read_tape tape head = Inr c" by blast
  from write_tape_nonneg[OF assms] obtain tape2 where w: "write_tape tape head wr = Inr tape2"
    by blast
  show ?case
  proof (cases "src = state \<and> c = rd")
    case True
    then show ?thesis using tm_move_nonneg[OF assms, of dir] by (simp add: t c w)
  next
    case False
    then have "tm_find (t # ts) tape state head = tm_find ts tape state head"
      by (auto simp: t c)
    then show ?thesis using Cons.IH by simp
  qed
qed

lemma tm_simulate_body_nonneg:
  assumes "0 \<le> head"
  shows "tm_simulate_body M (tape, state, head) \<noteq> Inl err"
    and "tm_simulate_body M (tape, state, head) = Inr (Inr (tape', state', head')) \<Longrightarrow> 0 \<le> head'"
  using tm_find_nonneg[OF assms, of "tm_transitions M" tape state]
  by (auto simp: tm_simulate_body_def split: if_splits sum.splits option.splits)

lemma tm_reach_nonneg:
  assumes "tm_reach M c c'" and "0 \<le> snd (snd c)"
  shows "0 \<le> snd (snd c')"
  using assms
proof (induction rule: tm_reach.induct)
  case (tm_reach_refl x)
  then show ?case by simp
next
  case (tm_reach_step x a b)
  obtain t1 s1 h1 where a: "a = (t1, s1, h1)" by (cases a) auto
  obtain t2 s2 h2 where b: "b = (t2, s2, h2)" by (cases b) auto
  from tm_reach_step have "0 \<le> h1" by (simp add: a)
  from tm_simulate_body_nonneg(2)[OF this] tm_reach_step.hyps(2) show ?case
    by (simp add: a b)
qed

lemma tm_simulate_no_error:
  "0 \<le> head \<Longrightarrow> tm_simulate n M tape state head \<noteq> Some (Inl err)"
proof (induction n arbitrary: tape state head)
  case 0
  then show ?case by simp
next
  case (Suc n)
  show ?case
  proof (cases "tm_simulate_body M (tape, state, head)")
    case (Inl e)
    with tm_simulate_body_nonneg(1)[OF Suc.prems] show ?thesis by blast
  next
    case (Inr r)
    show ?thesis
    proof (cases r)
      case (Inl verdict)
      with Inr show ?thesis by simp
    next
      case (Inr c')
      obtain t2 s2 h2 where c': "c' = (t2, s2, h2)" by (cases c') auto
      from tm_simulate_body_nonneg(2)[OF Suc.prems] \<open>tm_simulate_body M (tape, state, head) = Inr r\<close>
      have "0 \<le> h2" by (simp add: Inr c')
      from Suc.IH[OF this] show ?thesis
        using \<open>tm_simulate_body M (tape, state, head) = Inr r\<close> by (simp add: Inr c')
    qed
  qed
qed

lemma write_tape_beyond:
  assumes "int (length tape) \<le> h"
  shows "write_tape tape h c = Inr (tape @ replicate (nat (h - int (length tape))) (CHR ''.'') @ [c])"
proof -
  define k where "k = nat (h - int (length tape))"
  have h: "h = int (length tape + k)" using assms by (simp add: k_def)
  have "replicate (Suc k) (CHR ''.'') = replicate k (CHR ''.'') @ [CHR ''.'']"
    by (simp add: replicate_append_same)
  then have "(tape @ replicate (Suc k) (CHR ''.''))[length tape + k := c]
      = tape @ replicate k (CHR ''.'') @ [c]"
    by (simp add: list_update_append del: replicate_Suc)
  then show ?thesis
    unfolding k_def[symmetric] by (simp add: write_tape_def h Suc_nat_eq_nat_zadd1 nat_add_distrib)
qed

text \<open>
  Claim C5. In every configuration that a simulation started by \<^verbatim>\<open>accepts\<close> passes through, the
  head is at least 0, so the assertion of \<^verbatim>\<open>_read_tape\<close> holds there; a left move at position 0
  leaves the head at 0; reading at or beyond the end of the populated tape gives the blank
  \<^verbatim>\<open>.\<close>; writing there first fills the tape with blanks up to the head; and \<^verbatim>\<open>accepts\<close> never
  raises, whatever the recursion budget.
\<close>

theorem tm_head_never_negative:
  "(tm_reach M (s, tm_start_state M, 0) (tape, state, head) \<longrightarrow>
      0 \<le> head \<and> (\<exists>symbol. read_tape tape head = Inr symbol)) \<and>
   tm_move (CHR ''l'') 0 = 0 \<and>
   (int (length tape) \<le> h \<longrightarrow> read_tape tape h = Inr (CHR ''.'')) \<and>
   (int (length tape) \<le> h \<longrightarrow>
      write_tape tape h c = Inr (tape @ replicate (nat (h - int (length tape))) (CHR ''.'') @ [c])) \<and>
   tm_accepts n M s \<noteq> Some (Inl err)"
proof (intro conjI impI)
  assume r: "tm_reach M (s, tm_start_state M, 0) (tape, state, head)"
  from tm_reach_nonneg[OF r] show "0 \<le> head" by simp
  then show "\<exists>symbol. read_tape tape head = Inr symbol" by (rule read_tape_nonneg)
next
  show "tm_move (CHR ''l'') 0 = 0" by (simp add: tm_move_def)
next
  assume "int (length tape) \<le> h"
  then show "read_tape tape h = Inr (CHR ''.'')" by (simp add: read_tape_def)
next
  assume "int (length tape) \<le> h"
  then show "write_tape tape h c = Inr (tape @ replicate (nat (h - int (length tape))) (CHR ''.'') @ [c])"
    by (rule write_tape_beyond)
next
  show "tm_accepts n M s \<noteq> Some (Inl err)"
    unfolding tm_accepts_def by (rule tm_simulate_no_error) simp
qed

theorem tm_head_never_negative_witness:
  "tm_reach tm_example (''00'', tm_start_state tm_example, 0) (''00'', ''odd'', 1) \<and>
   (0::int) \<le> 1 \<and> read_tape ''00'' 1 = Inr (CHR ''0'') \<and>
   int (length ''00'') \<le> 4 \<and> read_tape ''00'' 4 = Inr (CHR ''.'') \<and>
   write_tape ''00'' 4 (CHR ''x'') = Inr ''00..x''"
proof -
  have b: "tm_simulate_body tm_example (''00'', tm_start_state tm_example, 0)
      = Inr (Inr (''00'', ''odd'', 1))"
    by code_simp
  have r: "tm_reach tm_example (''00'', tm_start_state tm_example, 0) (''00'', ''odd'', 1)"
    by (rule tm_reach_step[OF tm_reach_refl b])
  have l: "int (length ''00'') \<le> 4" by simp
  have rd: "read_tape ''00'' 1 = Inr (CHR ''0'')" by (simp add: read_tape_def)
  from tm_head_never_negative[of tm_example "''00''" "''00''" "''odd''" 1 4 "CHR ''x''"] r l rd
  show ?thesis by (simp add: numeral_eq_Suc)
qed

section \<open>Properties of the grammar engine\<close>

lemma not_is_upper_epsilon: "\<not> is_upper epsilon"
  by (simp add: is_upper_def epsilon_def less_eq_char_def)

lemma char_Z_less_a: "CHR ''Z'' < CHR ''a''"
  by (simp add: less_char_def)

lemma char_9_less_A: "CHR ''9'' < CHR ''A''"
  by (simp add: less_char_def)

lemma is_upper_not_lower: "is_upper s \<Longrightarrow> \<not> is_lower s"
  unfolding is_upper_def is_lower_def using char_Z_less_a
  by (meson leD le_less_trans order_trans not_le)

lemma is_upper_not_digit: "is_upper s \<Longrightarrow> \<not> is_digit s"
  unfolding is_upper_def is_digit_def using char_9_less_A
  by (meson leD le_less_trans order_trans not_le)

lemma is_upper_not_terminal:
  "is_upper s \<Longrightarrow> \<not> (is_digit s \<or> (is_lower s \<and> s \<noteq> epsilon))"
  using is_upper_not_lower is_upper_not_digit by blast

lemma remove_epsilons_append:
  "remove_epsilons (xs @ ys) = remove_epsilons xs @ remove_epsilons ys"
  by (simp add: remove_epsilons_def)

lemma remove_epsilons_idem: "remove_epsilons (remove_epsilons xs) = remove_epsilons xs"
  by (simp add: remove_epsilons_def)

lemma remove_epsilons_id: "(\<forall>s \<in> set xs. s \<noteq> epsilon) \<Longrightarrow> remove_epsilons xs = xs"
  by (simp add: remove_epsilons_def)

lemma remove_epsilons_fixed_parts:
  assumes "remove_epsilons (u @ A # v) = u @ A # v"
  shows "remove_epsilons u = u" and "remove_epsilons v = v"
proof -
  from assms have "filter (\<lambda>s. s \<noteq> epsilon) (u @ A # v) = u @ A # v"
    by (simp only: remove_epsilons_def)
  then have "\<forall>s \<in> set (u @ A # v). s \<noteq> epsilon"
    by (simp only: filter_id_conv)
  then show "remove_epsilons u = u" and "remove_epsilons v = v"
    by (simp_all add: remove_epsilons_def)
qed

lemma count_variables_remove_epsilons:
  "count_variables (remove_epsilons xs) = count_variables xs"
proof -
  have "filter is_upper (filter (\<lambda>s. s \<noteq> epsilon) xs) = filter is_upper xs"
    using not_is_upper_epsilon by (induction xs) auto
  then show ?thesis by (simp add: count_variables_def remove_epsilons_def)
qed

lemma find_leftmost_variable_Inr:
  "find_leftmost_variable xs = Inr A \<Longrightarrow>
     \<exists>u v. xs = u @ A # v \<and> (\<forall>s \<in> set u. \<not> is_upper s) \<and> is_upper A"
proof (induction xs)
  case Nil
  then show ?case by simp
next
  case (Cons x xs)
  show ?case
  proof (cases "is_upper x")
    case True
    with Cons.prems have "x = A" by simp
    with True have "x # xs = [] @ A # xs \<and> (\<forall>s \<in> set []. \<not> is_upper s) \<and> is_upper A" by simp
    then show ?thesis by blast
  next
    case False
    with Cons obtain u v where "xs = u @ A # v" "\<forall>s \<in> set u. \<not> is_upper s" "is_upper A"
      by auto
    with False have "x # xs = (x # u) @ A # v \<and> (\<forall>s \<in> set (x # u). \<not> is_upper s) \<and> is_upper A"
      by simp
    then show ?thesis by blast
  qed
qed

lemma find_leftmost_variable_decomp:
  "(\<forall>s \<in> set u. \<not> is_upper s) \<Longrightarrow> is_upper A \<Longrightarrow> find_leftmost_variable (u @ A # v) = Inr A"
  by (induction u) auto

lemma replace_first_decomp:
  "A \<notin> set u \<Longrightarrow> replace_first A rhs (u @ A # v) = u @ rhs @ v"
  by (induction u) auto

lemma leftmost_derivation_single: "leftmost_derivation G [x]"
  by (simp add: leftmost_derivation_def)

lemma leftmost_derivation_Cons:
  "leftmost_derivation G (x # y # ys) \<longleftrightarrow>
     leftmost_step G x y \<and> leftmost_derivation G (y # ys)"
proof
  assume a: "leftmost_derivation G (x # y # ys)"
  have "leftmost_step G x y" using a[unfolded leftmost_derivation_def, rule_format, of 0] by simp
  moreover have "leftmost_derivation G (y # ys)"
    unfolding leftmost_derivation_def
  proof (intro allI impI)
    fix i assume "Suc i < length (y # ys)"
    then show "leftmost_step G ((y # ys) ! i) ((y # ys) ! Suc i)"
      using a[unfolded leftmost_derivation_def, rule_format, of "Suc i"] by simp
  qed
  ultimately show "leftmost_step G x y \<and> leftmost_derivation G (y # ys)" ..
next
  assume a: "leftmost_step G x y \<and> leftmost_derivation G (y # ys)"
  show "leftmost_derivation G (x # y # ys)"
    unfolding leftmost_derivation_def
  proof (intro allI impI)
    fix i assume i: "Suc i < length (x # y # ys)"
    show "leftmost_step G ((x # y # ys) ! i) ((x # y # ys) ! Suc i)"
    proof (cases i)
      case 0
      with a show ?thesis by simp
    next
      case (Suc j)
      with i a[unfolded leftmost_derivation_def] show ?thesis by simp
    qed
  qed
qed

lemma bounded_derivation_single:
  "int (count_variables x) \<le> mx \<Longrightarrow> bounded_derivation G mx x x [x]"
  by (simp add: bounded_derivation_def leftmost_derivation_single)

lemma bounded_derivation_Cons:
  assumes "bounded_derivation G mx y t path" and "leftmost_step G x y"
    and "int (count_variables x) \<le> mx"
  shows "bounded_derivation G mx x t (x # path)"
proof -
  from assms(1) obtain ys where p: "path = y # ys"
    by (cases path) (auto simp: bounded_derivation_def)
  show ?thesis using assms unfolding p bounded_derivation_def
    by (simp add: leftmost_derivation_Cons)
qed

lemma leftmost_derive_Suc_cases:
  assumes "leftmost_derive (Suc n) G cur s mx pool cd = Some (Inr (d, pool'))"
  obtains
    (visited) "cur \<in> pool" "d = []" "pool' = pool"
  | (pruned) "cur \<notin> pool" "d = []" "pool' = insert cur pool"
      "int (count_variables cur) > mx \<or>
       count_terminals (remove_epsilons cur) > length (remove_epsilons s) \<or>
       (count_terminals (remove_epsilons cur) = length (remove_epsilons cur) \<and>
        remove_epsilons cur \<noteq> remove_epsilons s)"
  | (found) "cur \<notin> pool" "int (count_variables cur) \<le> mx"
      "count_terminals (remove_epsilons cur) \<le> length (remove_epsilons s)"
      "count_terminals (remove_epsilons cur) = length (remove_epsilons cur)"
      "remove_epsilons cur = remove_epsilons s"
      "d = cd @ [remove_epsilons cur]" "pool' = insert cur pool"
  | (expand) A rs where "cur \<notin> pool" "int (count_variables cur) \<le> mx"
      "count_terminals (remove_epsilons cur) \<le> length (remove_epsilons s)"
      "count_terminals (remove_epsilons cur) \<noteq> length (remove_epsilons cur)"
      "find_leftmost_variable (remove_epsilons cur) = Inr A"
      "find_rules G A = Inr rs"
      "leftmost_derive_loop n G rs (remove_epsilons cur) (remove_epsilons s) mx
         (insert cur pool) cd = Some (Inr (d, pool'))"
  using assms
  by (auto simp: Let_def split: if_splits sum.splits)

lemma leftmost_derive_loop_Cons_cases:
  assumes "leftmost_derive_loop n G (r # rs) cur s mx pool cd = Some (Inr (d, pool'))"
  obtains
    (hit) nxt where "apply_rule cur r = Inr nxt"
      "leftmost_derive n G nxt s mx pool (cd @ [cur]) = Some (Inr (d, pool'))" "d \<noteq> []"
  | (miss) nxt p where "apply_rule cur r = Inr nxt"
      "leftmost_derive n G nxt s mx pool (cd @ [cur]) = Some (Inr ([], p))"
      "leftmost_derive_loop n G rs cur s mx p cd = Some (Inr (d, pool'))"
  using assms
  by (auto split: if_splits sum.splits option.splits)

lemma find_rules_Inr:
  "find_rules G A = Inr rs \<Longrightarrow> \<forall>r \<in> set rs. fst r = A \<and> r \<in> set (cfg_rules G)"
  by (auto simp: find_rules_def split: if_splits)

lemma apply_rule_leftmost:
  assumes "find_leftmost_variable cur = Inr A" and "fst r = A"
    and "apply_rule cur r = Inr nxt"
  shows "\<exists>u v. cur = u @ A # v \<and> (\<forall>s \<in> set u. \<not> is_upper s) \<and> is_upper A \<and>
           nxt = u @ snd r @ v"
proof -
  from find_leftmost_variable_Inr[OF assms(1)] obtain u v where
    cur: "cur = u @ A # v" and u: "\<forall>s \<in> set u. \<not> is_upper s" and A: "is_upper A"
    by blast
  from u A have "A \<notin> set u" by blast
  then have "replace_first A (snd r) cur = u @ snd r @ v"
    unfolding cur by (rule replace_first_decomp)
  moreover from assms(2,3) have "nxt = replace_first A (snd r) cur"
    by (cases r) (auto simp: apply_rule_def split: if_splits)
  ultimately show ?thesis using cur u A by blast
qed

lemma leftmost_step_apply_rule:
  assumes "find_leftmost_variable cur = Inr A" and "remove_epsilons cur = cur"
    and "r \<in> set (cfg_rules G)" and "fst r = A" and "apply_rule cur r = Inr nxt"
  shows "leftmost_step G cur (remove_epsilons nxt)"
proof -
  from apply_rule_leftmost[OF assms(1,4,5)] obtain u v where
    cur: "cur = u @ A # v" and u: "\<forall>s \<in> set u. \<not> is_upper s" and A: "is_upper A"
    and nxt: "nxt = u @ snd r @ v"
    by blast
  from assms(2) have "remove_epsilons u = u" "remove_epsilons v = v"
    unfolding cur by (rule remove_epsilons_fixed_parts)+
  then have "remove_epsilons nxt = u @ remove_epsilons (snd r) @ v"
    by (simp add: nxt remove_epsilons_append)
  moreover from assms(3,4) have "(A, snd r) \<in> set (cfg_rules G)" by (cases r) auto
  ultimately show ?thesis unfolding leftmost_step_def using cur u A by blast
qed

lemma leftmost_derive_loop_sound:
  assumes IH: "\<And>cur pool cd d pool'.
      leftmost_derive n G cur s mx pool cd = Some (Inr (d, pool')) \<Longrightarrow> d \<noteq> [] \<Longrightarrow>
      \<exists>path. d = cd @ path \<and> bounded_derivation G mx (remove_epsilons cur) (remove_epsilons s) path"
    and "leftmost_derive_loop n G rs cur s mx pool cd = Some (Inr (d, pool'))"
    and "d \<noteq> []" and "remove_epsilons cur = cur" and "int (count_variables cur) \<le> mx"
    and "find_leftmost_variable cur = Inr A"
    and "\<forall>r \<in> set rs. fst r = A \<and> r \<in> set (cfg_rules G)"
  shows "\<exists>path. d = cd @ path \<and> bounded_derivation G mx cur (remove_epsilons s) path"
  using assms(2,7)
proof (induction rs arbitrary: pool)
  case Nil
  with \<open>d \<noteq> []\<close> show ?case by simp
next
  case (Cons r rs)
  from Cons.prems(1) show ?case
  proof (cases rule: leftmost_derive_loop_Cons_cases)
    case (hit nxt)
    from IH[OF hit(2,3)] obtain path where
      d: "d = (cd @ [cur]) @ path"
      and b: "bounded_derivation G mx (remove_epsilons nxt) (remove_epsilons s) path"
      by blast
    from Cons.prems(2) have r: "fst r = A" "r \<in> set (cfg_rules G)" by simp_all
    have "leftmost_step G cur (remove_epsilons nxt)"
      using assms(6) assms(4) r(2) r(1) hit(1) by (rule leftmost_step_apply_rule)
    with b have "bounded_derivation G mx cur (remove_epsilons s) (cur # path)"
      using assms(5) by (rule bounded_derivation_Cons)
    with d show ?thesis by simp
  next
    case (miss nxt p)
    from Cons.prems(2) have "\<forall>r \<in> set rs. fst r = A \<and> r \<in> set (cfg_rules G)" by simp
    with Cons.IH[OF miss(3)] show ?thesis .
  qed
qed

lemma leftmost_derive_sound:
  "leftmost_derive n G cur s mx pool cd = Some (Inr (d, pool')) \<Longrightarrow> d \<noteq> [] \<Longrightarrow>
     \<exists>path. d = cd @ path \<and> bounded_derivation G mx (remove_epsilons cur) (remove_epsilons s) path"
proof (induction n arbitrary: cur s pool cd d pool')
  case 0
  then show ?case by simp
next
  case (Suc n)
  from Suc.prems(1) show ?case
  proof (cases rule: leftmost_derive_Suc_cases)
    case visited
    with Suc.prems(2) show ?thesis by simp
  next
    case pruned
    with Suc.prems(2) show ?thesis by simp
  next
    case found
    have "bounded_derivation G mx (remove_epsilons cur) (remove_epsilons cur) [remove_epsilons cur]"
      using found(2) by (intro bounded_derivation_single) (simp add: count_variables_remove_epsilons)
    with found(5,6) show ?thesis by auto
  next
    case (expand A rs)
    have "\<exists>path. d = cd @ path \<and>
        bounded_derivation G mx (remove_epsilons cur) (remove_epsilons (remove_epsilons s)) path"
    proof (rule leftmost_derive_loop_sound[OF _ expand(7) Suc.prems(2) _ _ expand(5)])
      show "remove_epsilons (remove_epsilons cur) = remove_epsilons cur"
        by (rule remove_epsilons_idem)
      show "int (count_variables (remove_epsilons cur)) \<le> mx"
        using expand(2) by (simp add: count_variables_remove_epsilons)
      show "\<forall>r \<in> set rs. fst r = A \<and> r \<in> set (cfg_rules G)"
        using expand(6) by (rule find_rules_Inr)
    next
      fix cur' pool cd d pool'
      assume "leftmost_derive n G cur' (remove_epsilons s) mx pool cd = Some (Inr (d, pool'))"
        and "d \<noteq> []"
      then show "\<exists>path. d = cd @ path \<and>
          bounded_derivation G mx (remove_epsilons cur') (remove_epsilons (remove_epsilons s)) path"
        by (rule Suc.IH)
    qed
    then show ?thesis by (simp add: remove_epsilons_idem)
  qed
qed

lemma target_string_remove_epsilons: "target_string s \<Longrightarrow> remove_epsilons s = s"
  by (simp add: target_string_def remove_epsilons_def)

lemma target_string_count_terminals:
  assumes "target_string s"
  shows "count_terminals s = length s"
proof -
  have "filter (\<lambda>c. is_digit c \<or> (is_lower c \<and> c \<noteq> epsilon)) s = s"
    by (rule filter_True) (use assms in \<open>auto simp: target_string_def\<close>)
  then show ?thesis by (simp add: count_terminals_def)
qed

lemma returned_derivation_Inr:
  "returned_derivation r = Some (Inr d) \<Longrightarrow> \<exists>pool'. r = Some (Inr (d, pool'))"
proof (cases r)
  case None
  then show "returned_derivation r = Some (Inr d) \<Longrightarrow> ?thesis"
    by (simp add: returned_derivation_def)
next
  case (Some x)
  then show "returned_derivation r = Some (Inr d) \<Longrightarrow> ?thesis"
    by (cases x) (auto simp: returned_derivation_def)
qed

lemma derive_Inr:
  assumes "derive n G cur s mx = Some (Inr d)"
  shows "remove_epsilons cur = cur" and "target_string s"
    and "\<exists>pool'. leftmost_derive n G cur s mx {} [] = Some (Inr (d, pool'))"
proof -
  from assms have a: "\<forall>c \<in> set cur. c \<noteq> epsilon"
    and b: "\<forall>c \<in> set s. is_lower c \<or> is_digit c" and c: "\<forall>c \<in> set s. c \<noteq> epsilon"
    and r: "returned_derivation (leftmost_derive n G cur s mx {} []) = Some (Inr d)"
    unfolding derive_def by (auto split: if_splits)
  from a show "remove_epsilons cur = cur" by (rule remove_epsilons_id)
  from b c show "target_string s" by (simp add: target_string_def)
  from r show "\<exists>pool'. leftmost_derive n G cur s mx {} [] = Some (Inr (d, pool'))"
    by (rule returned_derivation_Inr)
qed

lemma generate_derive:
  "generate n G s mx = Some (Inr d) \<Longrightarrow> derive n G [cfg_start_variable G] s mx = Some (Inr d)"
  unfolding generate_def by (simp split: if_splits)

lemma derive_sound:
  assumes "derive n G cur s mx = Some (Inr d)" and "d \<noteq> []"
  shows "bounded_derivation G mx cur s d"
proof -
  from derive_Inr[OF assms(1)] obtain pool' where
    c: "remove_epsilons cur = cur" and t: "target_string s"
    and l: "leftmost_derive n G cur s mx {} [] = Some (Inr (d, pool'))"
    by blast
  from leftmost_derive_sound[OF l assms(2)] show ?thesis
    by (simp add: c target_string_remove_epsilons[OF t])
qed

text \<open>
  Claim C3. When \<^verbatim>\<open>derive\<close> returns a non-empty list, the list starts with the string the
  derivation was asked from, which is the start variable when the call comes from
  \<^verbatim>\<open>generate\<close>, it ends with the target string, and each element yields the next one by
  rewriting its leftmost variable with the right-hand side of a rule for that variable.
\<close>

theorem derive_leftmost_derivation:
  "(derive n G cur s mx = Some (Inr d) \<and> d \<noteq> [] \<longrightarrow>
      hd d = cur \<and> last d = s \<and>
      (\<forall>i. Suc i < length d \<longrightarrow> leftmost_step G (d ! i) (d ! Suc i))) \<and>
   (generate n G s mx = Some (Inr d) \<and> d \<noteq> [] \<longrightarrow>
      hd d = [cfg_start_variable G] \<and> last d = s \<and>
      (\<forall>i. Suc i < length d \<longrightarrow> leftmost_step G (d ! i) (d ! Suc i)))"
proof (intro conjI impI)
  assume a: "derive n G cur s mx = Some (Inr d) \<and> d \<noteq> []"
  then have b: "bounded_derivation G mx cur s d" using derive_sound by blast
  from b show "hd d = cur" by (simp add: bounded_derivation_def)
  from b show "last d = s" by (simp add: bounded_derivation_def)
  from b show "\<forall>i. Suc i < length d \<longrightarrow> leftmost_step G (d ! i) (d ! Suc i)"
    by (simp add: bounded_derivation_def leftmost_derivation_def)
next
  assume a: "generate n G s mx = Some (Inr d) \<and> d \<noteq> []"
  then have b: "bounded_derivation G mx [cfg_start_variable G] s d"
    using derive_sound generate_derive by blast
  from b show "hd d = [cfg_start_variable G]" by (simp add: bounded_derivation_def)
  from b show "last d = s" by (simp add: bounded_derivation_def)
  from b show "\<forall>i. Suc i < length d \<longrightarrow> leftmost_step G (d ! i) (d ! Suc i)"
    by (simp add: bounded_derivation_def leftmost_derivation_def)
qed

theorem derive_leftmost_derivation_witness:
  "generate 10 cfg_example ''01'' 64 = Some (Inr [''S'', ''0S1'', ''01'']) \<and>
   derive 10 cfg_example ''S'' ''01'' 64 = Some (Inr [''S'', ''0S1'', ''01'']) \<and>
   hd [''S'', ''0S1'', ''01''] = [cfg_start_variable cfg_example] \<and>
   last [''S'', ''0S1'', ''01''] = ''01'' \<and>
   leftmost_step cfg_example ''S'' ''0S1'' \<and> leftmost_step cfg_example ''0S1'' ''01''"
proof -
  let ?d = "[''S'', ''0S1'', ''01'']"
  have g: "generate 10 cfg_example ''01'' 64 = Some (Inr ?d)" by code_simp
  have d: "derive 10 cfg_example ''S'' ''01'' 64 = Some (Inr ?d)" by code_simp
  have ne: "?d \<noteq> []" by simp
  from derive_leftmost_derivation[of 10 cfg_example "''S''" "''01''" 64 ?d] g ne
  have h: "hd ?d = [cfg_start_variable cfg_example]" "last ?d = ''01''"
    and st: "\<forall>i. Suc i < length ?d \<longrightarrow> leftmost_step cfg_example (?d ! i) (?d ! Suc i)"
    by blast+
  have "Suc 0 < length ?d" by simp
  with st have "leftmost_step cfg_example (?d ! 0) (?d ! Suc 0)" by blast
  then have s0: "leftmost_step cfg_example ''S'' ''0S1''" by simp
  have "Suc 1 < length ?d" by simp
  with st have "leftmost_step cfg_example (?d ! 1) (?d ! Suc 1)" by blast
  then have s1: "leftmost_step cfg_example ''0S1'' ''01''" by simp
  from g d h s0 s1 show ?thesis by blast
qed

lemma leftmost_derive_loop_pool_mono:
  assumes IH: "\<And>cur pool cd d pool'.
      leftmost_derive n G cur s mx pool cd = Some (Inr (d, pool')) \<Longrightarrow> pool \<subseteq> pool'"
    and "leftmost_derive_loop n G rs cur s mx pool cd = Some (Inr (d, pool'))"
  shows "pool \<subseteq> pool'"
  using assms(2)
proof (induction rs arbitrary: pool)
  case Nil
  then show ?case by simp
next
  case (Cons r rs)
  from Cons.prems show ?case
  proof (cases rule: leftmost_derive_loop_Cons_cases)
    case (hit nxt)
    from IH[OF hit(2)] show ?thesis .
  next
    case (miss nxt p)
    from IH[OF miss(2)] Cons.IH[OF miss(3)] show ?thesis by blast
  qed
qed

lemma leftmost_derive_pool:
  "leftmost_derive n G cur s mx pool cd = Some (Inr (d, pool')) \<Longrightarrow> pool \<subseteq> pool' \<and> cur \<in> pool'"
proof (induction n arbitrary: cur s pool cd d pool')
  case 0
  then show ?case by simp
next
  case (Suc n)
  from Suc.prems show ?case
  proof (cases rule: leftmost_derive_Suc_cases)
    case visited
    then show ?thesis by blast
  next
    case pruned
    then show ?thesis by blast
  next
    case found
    then show ?thesis by blast
  next
    case (expand A rs)
    have "insert cur pool \<subseteq> pool'"
    proof (rule leftmost_derive_loop_pool_mono[OF _ expand(7)])
      fix c p cd d p'
      assume "leftmost_derive n G c (remove_epsilons s) mx p cd = Some (Inr (d, p'))"
      from Suc.IH[OF this] show "p \<subseteq> p'" by blast
    qed
    then show ?thesis by blast
  qed
qed

lemma leftmost_derive_target_stripped:
  "leftmost_derive n G cur (remove_epsilons s) mx pool cd = leftmost_derive n G cur s mx pool cd"
  by (cases n) (simp_all add: Let_def remove_epsilons_idem)

text \<open>
  Claim C6, as stated: the visited test works on the epsilon-stripped current string, so two
  current strings that differ only in epsilon symbols count as the same visited string. It
  fails: with \<^verbatim>\<open>S\<close> in the pool, the current string \<^verbatim>\<open>S\<close> is rejected as visited, but the
  current string \<^verbatim>\<open>eS\<close>, which strips to \<^verbatim>\<open>S\<close>, is searched and yields a derivation.
\<close>

theorem leftmost_derive_visited_counterexample:
  "remove_epsilons ''eS'' = remove_epsilons ''S'' \<and>
   returned_derivation (leftmost_derive 3 cfg_example ''S'' '''' 64 {''S''} []) = Some (Inr []) \<and>
   returned_derivation (leftmost_derive 3 cfg_example ''eS'' '''' 64 {''S''} [])
     = Some (Inr [''S'', ''''])"
  by code_simp

text \<open>
  Claim C6, amended. In \<^verbatim>\<open>leftmost_derive\<close> the visited test comes first and is made on the
  current string as it was passed, epsilon symbols included: a current string that is in the
  pool is rejected at once, and a current string that is not is put into the pool as it is.
  The variable count is taken before the stripping too, which does not change it. The epsilon
  symbols are stripped from the current string and from the target before the terminal
  count and before the comparison with the target: the search depends on the target only
  through its stripped form, and a current string without variables succeeds exactly when its
  stripped form is the stripped target.
\<close>

theorem leftmost_derive_epsilons:
  "(cur \<in> pool \<longrightarrow> leftmost_derive (Suc n) G cur s mx pool cd = Some (Inr ([], pool))) \<and>
   (leftmost_derive n G cur s mx pool cd = Some (Inr (d, pool')) \<longrightarrow> cur \<in> pool') \<and>
   count_variables (remove_epsilons cur) = count_variables cur \<and>
   leftmost_derive n G cur (remove_epsilons s) mx pool cd = leftmost_derive n G cur s mx pool cd \<and>
   (cur \<notin> pool \<and> int (count_variables cur) \<le> mx \<and>
    count_terminals (remove_epsilons s) = length (remove_epsilons s) \<and>
    count_terminals (remove_epsilons cur) = length (remove_epsilons cur) \<longrightarrow>
      leftmost_derive (Suc n) G cur s mx pool cd =
        Some (Inr (if remove_epsilons cur = remove_epsilons s
                   then cd @ [remove_epsilons cur] else [], insert cur pool)))"
proof (intro conjI impI)
  assume "cur \<in> pool"
  then show "leftmost_derive (Suc n) G cur s mx pool cd = Some (Inr ([], pool))" by simp
next
  assume a: "leftmost_derive n G cur s mx pool cd = Some (Inr (d, pool'))"
  from leftmost_derive_pool[OF a] show "cur \<in> pool'" by blast
next
  show "count_variables (remove_epsilons cur) = count_variables cur"
    by (rule count_variables_remove_epsilons)
next
  show "leftmost_derive n G cur (remove_epsilons s) mx pool cd = leftmost_derive n G cur s mx pool cd"
    by (rule leftmost_derive_target_stripped)
next
  assume a: "cur \<notin> pool \<and> int (count_variables cur) \<le> mx \<and>
    count_terminals (remove_epsilons s) = length (remove_epsilons s) \<and>
    count_terminals (remove_epsilons cur) = length (remove_epsilons cur)"
  then have "length (remove_epsilons s) < length (remove_epsilons cur) \<Longrightarrow>
      remove_epsilons cur \<noteq> remove_epsilons s" by auto
  with a show "leftmost_derive (Suc n) G cur s mx pool cd =
        Some (Inr (if remove_epsilons cur = remove_epsilons s
                   then cd @ [remove_epsilons cur] else [], insert cur pool))"
    by (simp add: Let_def)
qed

theorem leftmost_derive_epsilons_witness:
  "''S'' \<in> {''S''} \<and>
   leftmost_derive (Suc 0) cfg_example ''S'' [] 64 {''S''} [] = Some (Inr ([], {''S''})) \<and>
   ''e'' \<notin> ({} :: string set) \<and> int (count_variables ''e'') \<le> 64 \<and>
   count_terminals (remove_epsilons []) = length (remove_epsilons []) \<and>
   count_terminals (remove_epsilons ''e'') = length (remove_epsilons ''e'') \<and>
   leftmost_derive (Suc 0) cfg_example ''e'' [] 64 {} [] = Some (Inr ([[]], {''e''})) \<and>
   ''e'' \<in> {''e''}"
proof -
  have h1: "''S'' \<in> {''S''}" by simp
  have h2: "''e'' \<notin> ({} :: string set) \<and> int (count_variables ''e'') \<le> 64 \<and>
     count_terminals (remove_epsilons []) = length (remove_epsilons []) \<and>
     count_terminals (remove_epsilons ''e'') = length (remove_epsilons ''e'')"
    by (simp add: count_variables_def count_terminals_def remove_epsilons_def epsilon_def
        is_upper_def less_eq_char_def)
  from leftmost_derive_epsilons[of "''S''" "{''S''}" 0 cfg_example "[]" 64 "[]"] h1
  have a: "leftmost_derive (Suc 0) cfg_example ''S'' [] 64 {''S''} [] = Some (Inr ([], {''S''}))"
    by blast
  from leftmost_derive_epsilons[of "''e''" "{}" 0 cfg_example "[]" 64 "[]"] h2
  have "leftmost_derive (Suc 0) cfg_example ''e'' [] 64 {} [] =
      Some (Inr (if remove_epsilons ''e'' = remove_epsilons []
                 then [] @ [remove_epsilons ''e''] else [], insert ''e'' {}))"
    by blast
  then have b: "leftmost_derive (Suc 0) cfg_example ''e'' [] 64 {} [] = Some (Inr ([[]], {''e''}))"
    by (simp add: remove_epsilons_def epsilon_def)
  from leftmost_derive_epsilons[of "''e''" "{}" "Suc 0" cfg_example "[]" 64 "[]" "[[]]" "{''e''}"] b
  have c: "''e'' \<in> {''e''}" by blast
  from h1 h2 a b c show ?thesis by blast
qed

lemma finite_strings_le: "finite {x :: string. length x \<le> K}"
  using finite_lists_length_le[of "UNIV :: char set" K] by simp

lemma CFG_init_well_formed:
  assumes "CFG_init V T R S = Inr G"
  shows "well_formed G"
proof -
  from assms have G: "G = \<lparr>cfg_variables = V, cfg_terminals = T, cfg_rules = R,
      cfg_start_variable = S\<rparr>"
    and 1: "S \<in> V" and 2: "epsilon \<notin> T" and 3: "\<forall>s \<in> V. is_upper s"
    and 4: "\<forall>s \<in> T. is_lower s \<or> is_digit s"
    and 5: "\<forall>rule \<in> set R. fst rule \<in> V \<and>
               (\<forall>symbol \<in> set (snd rule). symbol \<in> {epsilon} \<union> (V \<union> T))"
    unfolding CFG_init_def by (simp_all split: if_splits)
  from 2 4 have 6: "\<forall>s \<in> T. (is_lower s \<or> is_digit s) \<and> s \<noteq> epsilon" by blast
  from 5 have 7: "\<forall>rule \<in> set R. fst rule \<in> V \<and> set (snd rule) \<subseteq> insert epsilon (V \<union> T)"
    by blast
  show ?thesis unfolding well_formed_def G using 1 3 6 7 by simp
qed

lemma length_filter_partition:
  assumes "\<forall>x \<in> set xs. P x \<noteq> Q x"
  shows "length (filter P xs) + length (filter Q xs) = length xs"
  using assms by (induction xs) auto

lemma sentential_char:
  assumes "well_formed G" and "sentential G x" and "c \<in> set (remove_epsilons x)"
  shows "(is_upper c \<and> c \<in> cfg_variables G) \<or>
         (\<not> is_upper c \<and> (is_digit c \<or> (is_lower c \<and> c \<noteq> epsilon)))"
proof -
  from assms(3) have "c \<in> set x" "c \<noteq> epsilon" by (simp_all add: remove_epsilons_def)
  with assms(2) have "c \<in> cfg_variables G \<or> (is_lower c \<or> is_digit c)"
    unfolding sentential_def by blast
  then show ?thesis
  proof
    assume "c \<in> cfg_variables G"
    with assms(1) show ?thesis unfolding well_formed_def by blast
  next
    assume t: "is_lower c \<or> is_digit c"
    then have "\<not> is_upper c" using is_upper_not_lower is_upper_not_digit by blast
    with t \<open>c \<noteq> epsilon\<close> show ?thesis by blast
  qed
qed

lemma sentential_length:
  assumes "well_formed G" and "sentential G x"
  shows "length (remove_epsilons x) = count_variables x + count_terminals (remove_epsilons x)"
proof -
  have "\<forall>c \<in> set (remove_epsilons x).
      is_upper c \<noteq> (is_digit c \<or> (is_lower c \<and> c \<noteq> epsilon))"
  proof
    fix c assume c: "c \<in> set (remove_epsilons x)"
    show "is_upper c \<noteq> (is_digit c \<or> (is_lower c \<and> c \<noteq> epsilon))"
    proof (cases "is_upper c")
      case True
      with is_upper_not_terminal[OF True] show ?thesis by simp
    next
      case False
      with sentential_char[OF assms c] show ?thesis by simp
    qed
  qed
  from length_filter_partition[OF this] show ?thesis
    by (simp add: count_variables_def[symmetric] count_terminals_def[symmetric]
        count_variables_remove_epsilons)
qed

lemma find_leftmost_variable_Inl:
  "find_leftmost_variable xs = Inl err \<Longrightarrow> \<forall>c \<in> set xs. \<not> is_upper c"
  by (induction xs) (auto split: if_splits)

lemma count_variables_0: "(\<forall>c \<in> set xs. \<not> is_upper c) \<Longrightarrow> count_variables xs = 0"
  by (simp add: count_variables_def)

lemma sentential_leftmost:
  assumes "well_formed G" and "sentential G x"
    and "count_terminals (remove_epsilons x) \<noteq> length (remove_epsilons x)"
  shows "\<exists>A. find_leftmost_variable (remove_epsilons x) = Inr A \<and> A \<in> cfg_variables G \<and>
           A \<in> set (remove_epsilons x)"
proof (cases "find_leftmost_variable (remove_epsilons x)")
  case (Inl err)
  from find_leftmost_variable_Inl[OF this] have "count_variables (remove_epsilons x) = 0"
    by (rule count_variables_0)
  with sentential_length[OF assms(1,2)] assms(3) show ?thesis
    by (simp add: count_variables_remove_epsilons)
next
  case (Inr A)
  from find_leftmost_variable_Inr[OF this] obtain u v where
    x: "remove_epsilons x = u @ A # v" and A: "is_upper A" by blast
  from x have m: "A \<in> set (remove_epsilons x)" by simp
  from sentential_char[OF assms(1,2) m] A have "A \<in> cfg_variables G" by blast
  with Inr m show ?thesis by blast
qed

lemma set_replace_first: "set (replace_first A rhs xs) \<subseteq> set rhs \<union> set xs"
  by (induction xs) auto

lemma length_replace_first: "length (replace_first A rhs xs) \<le> length xs + length rhs"
  by (induction xs) auto

lemma sentential_remove_epsilons: "sentential G x \<Longrightarrow> sentential G (remove_epsilons x)"
  by (auto simp: sentential_def remove_epsilons_def)

lemma rhs_bound_ge: "r \<in> set (cfg_rules G) \<Longrightarrow> length (snd r) \<le> rhs_bound G"
proof -
  assume "r \<in> set (cfg_rules G)"
  then have "length (snd r) \<in> set (map (\<lambda>rule. length (snd rule)) (cfg_rules G))"
    by (simp add: image_iff) (rule bexI[of _ r], simp_all)
  then show ?thesis unfolding rhs_bound_def by (rule member_le_sum_list) simp
qed

lemma apply_rule_sentential:
  assumes "well_formed G" and "sentential G x" and "r \<in> set (cfg_rules G)"
    and "fst r \<in> set x"
  shows "\<exists>nxt. apply_rule x r = Inr nxt \<and> sentential G nxt \<and>
           length nxt \<le> length x + rhs_bound G"
proof -
  obtain A rhs where r: "r = (A, rhs)" by (cases r) auto
  from assms(4) have a: "apply_rule x r = Inr (replace_first A rhs x)"
    by (simp add: apply_rule_def r)
  from assms(1,3) have rhs: "set rhs \<subseteq> insert epsilon (cfg_variables G \<union> cfg_terminals G)"
    unfolding well_formed_def r by fastforce
  have s: "sentential G (replace_first A rhs x)"
    unfolding sentential_def
  proof
    fix c assume "c \<in> set (replace_first A rhs x)"
    with set_replace_first[of A rhs x] have "c \<in> set rhs \<or> c \<in> set x" by blast
    then show "c = epsilon \<or> c \<in> cfg_variables G \<or> is_lower c \<or> is_digit c"
    proof
      assume "c \<in> set rhs"
      with rhs have "c = epsilon \<or> c \<in> cfg_variables G \<or> c \<in> cfg_terminals G" by blast
      with assms(1) show ?thesis unfolding well_formed_def by blast
    next
      assume "c \<in> set x"
      with assms(2) show ?thesis unfolding sentential_def by blast
    qed
  qed
  from rhs_bound_ge[OF assms(3)] length_replace_first[of A rhs x]
  have "length (replace_first A rhs x) \<le> length x + rhs_bound G" by (simp add: r)
  with a s show ?thesis by blast
qed

lemma leftmost_derive_loop_terminates:
  assumes IH: "\<And>cur pool cd. sentential G cur \<Longrightarrow> length cur \<le> K \<Longrightarrow>
      card ({x. length x \<le> K} - pool) < n \<Longrightarrow>
      \<exists>d pool'. leftmost_derive n G cur s mx pool cd = Some (Inr (d, pool'))"
    and "\<forall>r \<in> set rs. \<exists>nxt. apply_rule cur r = Inr nxt \<and> sentential G nxt \<and> length nxt \<le> K"
    and "card ({x. length x \<le> K} - pool) < n"
  shows "\<exists>d pool'. leftmost_derive_loop n G rs cur s mx pool cd = Some (Inr (d, pool'))"
  using assms(2,3)
proof (induction rs arbitrary: pool)
  case Nil
  then show ?case by simp
next
  case (Cons r rs)
  from Cons.prems(1) obtain nxt where a: "apply_rule cur r = Inr nxt"
    and s: "sentential G nxt" and l: "length nxt \<le> K" by auto
  from IH[OF s l Cons.prems(2)] obtain d p where
    ld: "leftmost_derive n G nxt s mx pool (cd @ [cur]) = Some (Inr (d, p))" by blast
  show ?case
  proof (cases "d = []")
    case False
    with a ld show ?thesis by simp
  next
    case True
    from leftmost_derive_pool[OF ld] have "pool \<subseteq> p" by blast
    then have "{x. length x \<le> K} - p \<subseteq> {x. length x \<le> K} - pool" by blast
    then have "card ({x. length x \<le> K} - p) \<le> card ({x. length x \<le> K} - pool)"
      by (intro card_mono finite_Diff finite_strings_le)
    with Cons.prems(2) have c: "card ({x. length x \<le> K} - p) < n" by simp
    from Cons.prems(1) have "\<forall>r \<in> set rs. \<exists>nxt. apply_rule cur r = Inr nxt \<and>
        sentential G nxt \<and> length nxt \<le> K" by simp
    from Cons.IH[OF this c] obtain d' p' where
      "leftmost_derive_loop n G rs cur s mx p cd = Some (Inr (d', p'))" by blast
    with a ld True show ?thesis by simp
  qed
qed

lemma leftmost_derive_terminates:
  assumes wf: "well_formed G"
    and t: "count_terminals (remove_epsilons s) = length (remove_epsilons s)"
    and K: "nat mx + length (remove_epsilons s) + rhs_bound G \<le> K"
  shows "sentential G cur \<Longrightarrow> length cur \<le> K \<Longrightarrow>
      card ({x. length x \<le> K} - pool) < n \<Longrightarrow>
      \<exists>d pool'. leftmost_derive n G cur s mx pool cd = Some (Inr (d, pool'))"
proof (induction n arbitrary: cur pool cd)
  case 0
  then show ?case by simp
next
  case (Suc n)
  let ?c = "remove_epsilons cur" and ?s = "remove_epsilons s"
  show ?case
  proof (cases "cur \<in> pool")
    case True
    then show ?thesis by simp
  next
    case False
    have fin: "finite ({x. length x \<le> K} - pool)" by (intro finite_Diff finite_strings_le)
    from False Suc.prems(2) have "cur \<in> {x. length x \<le> K} - pool" by simp
    then have "card ({x. length x \<le> K} - pool - {cur}) < card ({x. length x \<le> K} - pool)"
      using fin by (intro card_Diff1_less)
    moreover have "{x. length x \<le> K} - insert cur pool = {x. length x \<le> K} - pool - {cur}"
      by blast
    ultimately have c: "card ({x. length x \<le> K} - insert cur pool) < n"
      using Suc.prems(3) by simp
    show ?thesis
    proof (cases "int (count_variables cur) > mx \<or> count_terminals ?c > length ?s \<or>
        count_terminals ?c = length ?c")
      case True
      with False t show ?thesis by (auto simp: Let_def)
    next
      case nopr: False
      from sentential_leftmost[OF wf Suc.prems(1)] nopr obtain A where
        A: "find_leftmost_variable ?c = Inr A" "A \<in> cfg_variables G" "A \<in> set ?c"
        by blast
      let ?rs = "filter (\<lambda>rule. fst rule = A) (cfg_rules G)"
      from A(2) have fr: "find_rules G A = Inr ?rs" by (simp add: find_rules_def)
      from nopr have "int (count_variables cur) \<le> mx" by simp
      then have "count_variables cur \<le> nat mx" by linarith
      with sentential_length[OF wf Suc.prems(1)] nopr
      have len: "length ?c \<le> nat mx + length ?s" by simp
      have rs: "\<forall>r \<in> set ?rs. \<exists>nxt. apply_rule ?c r = Inr nxt \<and> sentential G nxt \<and>
          length nxt \<le> K"
      proof
        fix r assume "r \<in> set ?rs"
        then have r: "r \<in> set (cfg_rules G)" "fst r = A" by simp_all
        from apply_rule_sentential[OF wf sentential_remove_epsilons[OF Suc.prems(1)] r(1)] A(3) r(2)
        obtain nxt where "apply_rule ?c r = Inr nxt" "sentential G nxt"
          "length nxt \<le> length ?c + rhs_bound G" by blast
        with len K show "\<exists>nxt. apply_rule ?c r = Inr nxt \<and> sentential G nxt \<and> length nxt \<le> K"
          by auto
      qed
      have "\<exists>d pool'. leftmost_derive_loop n G ?rs ?c ?s mx (insert cur pool) cd
          = Some (Inr (d, pool'))"
      proof (rule leftmost_derive_loop_terminates[OF _ rs c])
        fix c p cd
        assume "sentential G c" "length c \<le> K" "card ({x::string. length x \<le> K} - p) < n"
        from Suc.IH[OF this]
        show "\<exists>d pool'. leftmost_derive n G c ?s mx p cd = Some (Inr (d, pool'))"
          by (simp add: leftmost_derive_target_stripped)
      qed
      with False nopr t A(1) fr show ?thesis by (auto simp: Let_def)
    qed
  qed
qed

lemma leftmost_derive_loop_fuel_mono:
  assumes IH: "\<And>cur pool cd r. leftmost_derive n G cur s mx pool cd = Some r \<Longrightarrow>
      leftmost_derive m G cur s mx pool cd = Some r"
  shows "leftmost_derive_loop n G rs cur s mx pool cd = Some r \<Longrightarrow>
      leftmost_derive_loop m G rs cur s mx pool cd = Some r"
proof (induction rs arbitrary: pool)
  case Nil
  then show ?case by simp
next
  case (Cons a rs)
  show ?case
  proof (cases "apply_rule cur a")
    case (Inl err)
    with Cons.prems show ?thesis by simp
  next
    case (Inr nxt)
    show ?thesis
    proof (cases "leftmost_derive n G nxt s mx pool (cd @ [cur])")
      case None
      with Cons.prems Inr show ?thesis by simp
    next
      case (Some x)
      from IH[OF Some] have m: "leftmost_derive m G nxt s mx pool (cd @ [cur]) = Some x" .
      show ?thesis
      proof (cases x)
        case (Inl err)
        from Cons.prems Inr Some Inl have r: "r = Inl err" by simp
        show ?thesis using Inr m Inl by (simp add: r)
      next
        case x: (Inr dp)
        obtain d p where dp: "dp = (d, p)" by (cases dp) auto
        show ?thesis
        proof (cases "d = []")
          case True
          with Cons.prems Inr Some x dp
          have "leftmost_derive_loop n G rs cur s mx p cd = Some r" by simp
          from Cons.IH[OF this] Inr m x dp True show ?thesis by simp
        next
          case False
          from Cons.prems Inr Some x dp False have r: "r = Inr (d, p)" by simp
          show ?thesis using Inr m x dp False by (simp add: r)
        qed
      qed
    qed
  qed
qed

lemma leftmost_derive_Suc_fuel:
  assumes "leftmost_derive (Suc n) G cur s mx pool cd = Some r"
    and "\<And>rs c t p. leftmost_derive_loop n G rs c t mx p cd = Some r \<Longrightarrow>
           leftmost_derive_loop m G rs c t mx p cd = Some r"
  shows "leftmost_derive (Suc m) G cur s mx pool cd = Some r"
  using assms by (auto simp: Let_def split: if_splits sum.splits)

lemma leftmost_derive_fuel_mono:
  "leftmost_derive n G cur s mx pool cd = Some r \<Longrightarrow> n \<le> m \<Longrightarrow>
     leftmost_derive m G cur s mx pool cd = Some r"
proof (induction n arbitrary: m cur s pool cd r)
  case 0
  then show ?case by simp
next
  case (Suc n)
  from Suc.prems(2) obtain m' where m: "m = Suc m'" and le: "n \<le> m'" by (cases m) auto
  show ?case unfolding m
  proof (rule leftmost_derive_Suc_fuel[OF Suc.prems(1)])
    fix rs c t p
    assume "leftmost_derive_loop n G rs c t mx p cd = Some r"
    then show "leftmost_derive_loop m' G rs c t mx p cd = Some r"
    proof (rule leftmost_derive_loop_fuel_mono[rotated])
      fix cur pool cd r
      assume "leftmost_derive n G cur t mx pool cd = Some r"
      from Suc.IH[OF this le] show "leftmost_derive m' G cur t mx pool cd = Some r" .
    qed
  qed
qed

lemma search_closed_stripped:
  "search_closed G mx (remove_epsilons s) P Q = search_closed G mx s P Q"
  by (simp add: search_closed_def search_goal_def search_successors_def search_live_def
      remove_epsilons_idem)

lemma search_closed_empty: "search_closed G mx s P {}"
  by (simp add: search_closed_def)

lemma search_closed_union:
  "search_closed G mx s P Q \<Longrightarrow> search_closed G mx s P' Q' \<Longrightarrow> P \<subseteq> P' \<Longrightarrow>
     search_closed G mx s P' (Q \<union> Q')"
  unfolding search_closed_def by blast

lemma leftmost_derive_loop_closed:
  assumes IH: "\<And>cur pool cd pool'.
      leftmost_derive n G cur s mx pool cd = Some (Inr ([], pool')) \<Longrightarrow>
      search_closed G mx s pool' (pool' - pool)"
    and "leftmost_derive_loop n G rs cur s mx pool cd = Some (Inr ([], pool'))"
  shows "search_closed G mx s pool' (pool' - pool) \<and> pool \<subseteq> pool' \<and>
         (\<forall>r \<in> set rs. \<forall>nxt. apply_rule cur r = Inr nxt \<longrightarrow> nxt \<in> pool')"
  using assms(2)
proof (induction rs arbitrary: pool)
  case Nil
  then show ?case by (simp add: search_closed_empty)
next
  case (Cons r rs)
  from Cons.prems show ?case
  proof (cases rule: leftmost_derive_loop_Cons_cases)
    case (hit nxt)
    then show ?thesis by simp
  next
    case (miss nxt p)
    from IH[OF miss(2)] have c1: "search_closed G mx s p (p - pool)" .
    from leftmost_derive_pool[OF miss(2)] have p: "pool \<subseteq> p" "nxt \<in> p" by blast+
    from Cons.IH[OF miss(3)] have c2: "search_closed G mx s pool' (pool' - p)"
      and pp: "p \<subseteq> pool'"
      and rs: "\<forall>r \<in> set rs. \<forall>nxt. apply_rule cur r = Inr nxt \<longrightarrow> nxt \<in> pool'"
      by blast+
    from search_closed_union[OF c1 c2 pp]
    have "search_closed G mx s pool' ((p - pool) \<union> (pool' - p))" .
    moreover have "(p - pool) \<union> (pool' - p) = pool' - pool" using p(1) pp by blast
    ultimately have "search_closed G mx s pool' (pool' - pool)" by simp
    moreover have "pool \<subseteq> pool'" using p(1) pp by blast
    moreover have "\<forall>r' \<in> set (r # rs). \<forall>nxt. apply_rule cur r' = Inr nxt \<longrightarrow> nxt \<in> pool'"
      using rs miss(1) p(2) pp by auto
    ultimately show ?thesis by blast
  qed
qed

lemma leftmost_derive_closed:
  "leftmost_derive n G cur s mx pool cd = Some (Inr ([], pool')) \<Longrightarrow>
     search_closed G mx s pool' (pool' - pool)"
proof (induction n arbitrary: cur s pool cd pool')
  case 0
  then show ?case by simp
next
  case (Suc n)
  let ?c = "remove_epsilons cur" and ?s = "remove_epsilons s"
  from Suc.prems show ?case
  proof (cases rule: leftmost_derive_Suc_cases)
    case visited
    then show ?thesis by (simp add: search_closed_empty)
  next
    case pruned
    from pruned(4) have "\<not> search_goal mx s cur" "search_successors G mx s cur = {}"
      by (auto simp: search_goal_def search_successors_def search_live_def)
    moreover from pruned(1,3) have "pool' - pool = {cur}" by blast
    ultimately show ?thesis by (simp add: search_closed_def)
  next
    case found
    then show ?thesis by simp
  next
    case (expand A rs)
    have "search_closed G mx ?s pool' (pool' - insert cur pool) \<and> insert cur pool \<subseteq> pool' \<and>
         (\<forall>r \<in> set rs. \<forall>nxt. apply_rule ?c r = Inr nxt \<longrightarrow> nxt \<in> pool')"
    proof (rule leftmost_derive_loop_closed[OF _ expand(7)])
      fix c p cd p'
      assume "leftmost_derive n G c ?s mx p cd = Some (Inr ([], p'))"
      from Suc.IH[OF this] show "search_closed G mx ?s p' (p' - p)" .
    qed
    then have c1: "search_closed G mx s pool' (pool' - insert cur pool)"
      and sub: "insert cur pool \<subseteq> pool'"
      and rs: "\<forall>r \<in> set rs. \<forall>nxt. apply_rule ?c r = Inr nxt \<longrightarrow> nxt \<in> pool'"
      by (simp_all add: search_closed_stripped)
    from expand(6) have rs_def: "rs = filter (\<lambda>rule. fst rule = A) (cfg_rules G)"
      by (auto simp: find_rules_def split: if_splits)
    have "search_successors G mx s cur \<subseteq> pool'"
    proof
      fix nxt assume "nxt \<in> search_successors G mx s cur"
      then obtain A' r where "find_leftmost_variable ?c = Inr A'" "r \<in> set (cfg_rules G)"
        "fst r = A'" "apply_rule ?c r = Inr nxt"
        by (auto simp: search_successors_def split: if_splits)
      with expand(5) have "r \<in> set rs" "apply_rule ?c r = Inr nxt" by (simp_all add: rs_def)
      with rs show "nxt \<in> pool'" by blast
    qed
    moreover from expand(4) have "\<not> search_goal mx s cur" by (simp add: search_goal_def)
    ultimately have c2: "search_closed G mx s pool' {cur}" by (simp add: search_closed_def)
    from search_closed_union[OF c2 c1 subset_refl]
    have "search_closed G mx s pool' ({cur} \<union> (pool' - insert cur pool))" .
    moreover have "{cur} \<union> (pool' - insert cur pool) = pool' - pool"
      using sub expand(1) by blast
    ultimately show ?thesis by simp
  qed
qed

lemma count_terminals_append:
  "count_terminals (xs @ ys) = count_terminals xs + count_terminals ys"
  by (simp add: count_terminals_def)

lemma count_terminals_upper: "is_upper A \<Longrightarrow> count_terminals (A # xs) = count_terminals xs"
  using is_upper_not_terminal[of A] by (simp add: count_terminals_def)

lemma count_terminals_le_length: "count_terminals xs \<le> length xs"
  by (simp add: count_terminals_def)

lemma leftmost_step_count_terminals:
  assumes "leftmost_step G x y"
  shows "count_terminals x \<le> count_terminals y"
proof -
  from assms obtain u A v rhs where "x = u @ A # v" "is_upper A" "y = u @ remove_epsilons rhs @ v"
    unfolding leftmost_step_def by blast
  then show ?thesis by (simp add: count_terminals_append count_terminals_upper)
qed

lemma leftmost_derivation_count_terminals:
  "leftmost_derivation G ds \<Longrightarrow> ds \<noteq> [] \<Longrightarrow> count_terminals (hd ds) \<le> count_terminals (last ds)"
proof (induction ds rule: induct_list012)
  case 1
  then show ?case by simp
next
  case (2 x)
  then show ?case by simp
next
  case (3 x y zs)
  from "3.prems"(1) have s: "leftmost_step G x y" and d: "leftmost_derivation G (y # zs)"
    by (simp_all add: leftmost_derivation_Cons)
  from "3.IH"(2)[OF d] leftmost_step_count_terminals[OF s] show ?case by simp
qed

lemma search_closed_no_derivation:
  assumes cl: "search_closed G mx s P P"
    and t: "count_terminals (remove_epsilons s) = length (remove_epsilons s)"
  shows "x \<in> P \<Longrightarrow> bounded_derivation G mx (remove_epsilons x) (remove_epsilons s) ds \<Longrightarrow> False"
proof (induction ds arbitrary: x rule: induct_list012)
  case 1
  then show ?case by (simp add: bounded_derivation_def)
next
  case (2 z)
  let ?x = "remove_epsilons x" and ?s = "remove_epsilons s"
  from "2.prems"(2) have e: "?x = ?s" and v: "int (count_variables ?x) \<le> mx"
    by (auto simp: bounded_derivation_def)
  from v have v': "int (count_variables x) \<le> mx"
    by (simp only: count_variables_remove_epsilons)
  from t e have t': "count_terminals ?x = length ?x" by simp
  from t' e have "count_terminals ?x \<le> length ?s" by simp
  with v' t' e have "search_goal mx s x"
    unfolding search_goal_def search_live_def by blast
  with cl "2.prems"(1) show ?case unfolding search_closed_def by blast
next
  case (3 z y zs)
  let ?x = "remove_epsilons x" and ?s = "remove_epsilons s"
  from "3.prems"(2) have bd: "hd (z # y # zs) = ?x \<and> last (z # y # zs) = ?s \<and>
      leftmost_derivation G (z # y # zs) \<and>
      (\<forall>w \<in> set (z # y # zs). int (count_variables w) \<le> mx)"
    unfolding bounded_derivation_def by blast
  from bd have z: "z = ?x" by simp
  from bd have last: "last (y # zs) = ?s" by simp
  from bd have der: "leftmost_derivation G (z # y # zs)" by blast
  from bd have bnd: "\<forall>w \<in> set (z # y # zs). int (count_variables w) \<le> mx" by blast
  from der have step: "leftmost_step G ?x y" and der': "leftmost_derivation G (y # zs)"
    by (simp_all add: leftmost_derivation_Cons z)
  from leftmost_derivation_count_terminals[OF der] last t
  have ct: "count_terminals ?x \<le> length ?s" by (simp add: z)
  from bnd have "int (count_variables x) \<le> mx"
    by (simp add: z count_variables_remove_epsilons)
  with ct have live: "search_live mx s x" by (simp add: search_live_def)
  from step obtain u A v rhs where x: "?x = u @ A # v" and u: "\<forall>c \<in> set u. \<not> is_upper c"
    and A: "is_upper A" and r: "(A, rhs) \<in> set (cfg_rules G)"
    and y: "y = u @ remove_epsilons rhs @ v"
    unfolding leftmost_step_def by blast
  have "count_terminals ?x = count_terminals u + count_terminals v"
    by (simp add: x count_terminals_append count_terminals_upper[OF A])
  also have "\<dots> \<le> length u + length v"
    by (intro add_mono count_terminals_le_length)
  also have "\<dots> < length ?x" by (simp add: x)
  finally have ne: "count_terminals ?x \<noteq> length ?x" by simp
  have flv: "find_leftmost_variable ?x = Inr A"
    unfolding x using u A by (rule find_leftmost_variable_decomp)
  from u A have "A \<notin> set u" by blast
  then have "replace_first A rhs ?x = u @ rhs @ v" unfolding x by (rule replace_first_decomp)
  then have app: "apply_rule ?x (A, rhs) = Inr (u @ rhs @ v)"
    by (simp add: apply_rule_def x)
  from live ne flv r app have "u @ rhs @ v \<in> search_successors G mx s x"
    unfolding search_successors_def by force
  with cl "3.prems"(1) have inP: "u @ rhs @ v \<in> P" unfolding search_closed_def by blast
  have "remove_epsilons ?x = ?x" by (rule remove_epsilons_idem)
  then have "remove_epsilons u = u" "remove_epsilons v = v"
    unfolding x by (rule remove_epsilons_fixed_parts)+
  then have ynxt: "remove_epsilons (u @ rhs @ v) = y"
    by (simp add: y remove_epsilons_append)
  from bnd last der' have "bounded_derivation G mx y ?s (y # zs)"
    by (simp add: bounded_derivation_def)
  with "3.IH"(2)[OF inP] ynxt show ?case by simp
qed

lemma derive_cases:
  "(\<forall>n. derive n G cur s mx = Some (Inl (AssertionError NoMessage))) \<or>
   (\<forall>n. derive n G cur s mx = returned_derivation (leftmost_derive n G cur s mx {} []))"
proof -
  let ?A = "\<forall>s \<in> set s. is_upper s \<or> is_lower s \<or> is_digit s"
  let ?B = "\<forall>s \<in> set cur. s \<noteq> epsilon"
  let ?C = "\<forall>s \<in> set s. is_lower s \<or> is_digit s"
  let ?D = "\<forall>s \<in> set s. s \<noteq> epsilon"
  consider (a) "\<not> ?A" | (b) "?A" "\<not> ?B" | (c) "?A" "?B" "\<not> ?C"
    | (d) "?A" "?B" "?C" "\<not> ?D" | (e) "?A" "?B" "?C" "?D"
    by blast
  then show ?thesis
  proof cases
    case a
    then show ?thesis by (auto simp: derive_def)
  next
    case b
    then show ?thesis by (auto simp: derive_def)
  next
    case c
    then show ?thesis by (auto simp: derive_def)
  next
    case d
    then show ?thesis by (auto simp: derive_def)
  next
    case e
    then show ?thesis by (auto simp: derive_def)
  qed
qed

lemma returned_derivation_fuel_mono:
  assumes "returned_derivation (leftmost_derive n G cur s mx pool cd) = Some r" and "n \<le> m"
  shows "returned_derivation (leftmost_derive m G cur s mx pool cd) = Some r"
proof (cases "leftmost_derive n G cur s mx pool cd")
  case None
  with assms(1) show ?thesis by (simp add: returned_derivation_def)
next
  case (Some x)
  from leftmost_derive_fuel_mono[OF Some assms(2)] Some assms(1) show ?thesis by simp
qed

lemma derive_fuel_mono:
  assumes "derive n G cur s mx = Some r" and "n \<le> m"
  shows "derive m G cur s mx = Some r"
  using derive_cases[of G cur s mx]
proof
  assume "\<forall>n. derive n G cur s mx = Some (Inl (AssertionError NoMessage))"
  with assms(1) show ?thesis by simp
next
  assume a: "\<forall>n. derive n G cur s mx = returned_derivation (leftmost_derive n G cur s mx {} [])"
  with assms(1) have "returned_derivation (leftmost_derive n G cur s mx {} []) = Some r" by simp
  from returned_derivation_fuel_mono[OF this assms(2)] a show ?thesis by simp
qed

lemma generate_cases:
  "(\<forall>n. generate n G s mx = Some (Inl (AssertionError NoMessage))) \<or>
   (\<forall>n. generate n G s mx = derive n G [cfg_start_variable G] s mx)"
proof -
  let ?C = "\<forall>s \<in> set s. is_lower s \<or> is_digit s"
  let ?D = "\<forall>s \<in> set s. s \<noteq> epsilon"
  consider (c) "\<not> ?C" | (d) "?C" "\<not> ?D" | (e) "?C" "?D"
    by blast
  then show ?thesis
  proof cases
    case c
    then show ?thesis by (auto simp: generate_def)
  next
    case d
    then show ?thesis by (auto simp: generate_def)
  next
    case e
    then show ?thesis by (auto simp: generate_def)
  qed
qed

lemma generate_fuel_mono:
  assumes "generate n G s mx = Some r" and "n \<le> m"
  shows "generate m G s mx = Some r"
  using generate_cases[of G s mx]
proof
  assume "\<forall>n. generate n G s mx = Some (Inl (AssertionError NoMessage))"
  with assms(1) show ?thesis by simp
next
  assume a: "\<forall>n. generate n G s mx = derive n G [cfg_start_variable G] s mx"
  with assms(1) have "derive n G [cfg_start_variable G] s mx = Some r" by simp
  from derive_fuel_mono[OF this assms(2)] a show ?thesis by simp
qed

lemma derive_target_string:
  assumes "target_string s" and "\<forall>c \<in> set cur. c \<noteq> epsilon"
  shows "derive n G cur s mx = returned_derivation (leftmost_derive n G cur s mx {} [])"
proof -
  from assms(1) have "\<forall>c \<in> set s. is_lower c \<or> is_digit c" "\<forall>c \<in> set s. c \<noteq> epsilon"
    unfolding target_string_def by blast+
  with assms(2) show ?thesis unfolding derive_def by auto
qed

lemma generate_target_string:
  assumes "target_string s"
  shows "generate n G s mx = derive n G [cfg_start_variable G] s mx"
proof -
  from assms(1) have "\<forall>c \<in> set s. is_lower c \<or> is_digit c" "\<forall>c \<in> set s. c \<noteq> epsilon"
    unfolding target_string_def by blast+
  then show ?thesis unfolding generate_def by auto
qed

lemma not_target_string_derive:
  assumes "\<not> target_string s"
  shows "derive n G cur s mx = Some (Inl (AssertionError NoMessage))"
proof -
  from assms have "\<not> (\<forall>c \<in> set s. is_lower c \<or> is_digit c) \<or> \<not> (\<forall>c \<in> set s. c \<noteq> epsilon)"
    unfolding target_string_def by blast
  then show ?thesis unfolding derive_def by auto
qed

lemma not_target_string_generate:
  assumes "\<not> target_string s"
  shows "generate n G s mx = Some (Inl (AssertionError NoMessage))"
proof -
  from assms have "\<not> (\<forall>c \<in> set s. is_lower c \<or> is_digit c) \<or> \<not> (\<forall>c \<in> set s. c \<noteq> epsilon)"
    unfolding target_string_def by blast
  then show ?thesis unfolding generate_def by auto
qed

lemma well_formed_symbols:
  assumes "well_formed G" and "current_string G cur"
  shows "sentential G cur" and "\<forall>c \<in> set cur. c \<noteq> epsilon"
proof -
  from assms(2) show "sentential G cur" unfolding sentential_def current_string_def by blast
  show "\<forall>c \<in> set cur. c \<noteq> epsilon"
  proof
    fix c assume "c \<in> set cur"
    with assms(2) have "c \<in> cfg_variables G \<or> c \<noteq> epsilon"
      unfolding current_string_def by blast
    then show "c \<noteq> epsilon"
    proof
      assume "c \<in> cfg_variables G"
      with assms(1) have "is_upper c" unfolding well_formed_def by blast
      with not_is_upper_epsilon show ?thesis by blast
    next
      assume "c \<noteq> epsilon"
      then show ?thesis .
    qed
  qed
qed

lemma derive_exact:
  assumes wf: "well_formed G" and t: "target_string s"
    and cur: "current_string G cur"
  shows "\<exists>n d. (\<forall>m \<ge> n. derive m G cur s mx = Some (Inr d)) \<and>
           (d \<noteq> [] \<longleftrightarrow> (\<exists>ds. bounded_derivation G mx cur s ds))"
proof -
  from well_formed_symbols[OF wf cur] have sent: "sentential G cur"
    and ne: "\<forall>c \<in> set cur. c \<noteq> epsilon" by blast+
  from ne have rc: "remove_epsilons cur = cur" by (rule remove_epsilons_id)
  from t have rs: "remove_epsilons s = s" by (rule target_string_remove_epsilons)
  from t have ct: "count_terminals (remove_epsilons s) = length (remove_epsilons s)"
    by (simp add: rs target_string_count_terminals)
  define K where "K = length cur + (nat mx + length (remove_epsilons s) + rhs_bound G)"
  define n where "n = Suc (card {x :: string. length x \<le> K})"
  have "\<exists>d pool'. leftmost_derive n G cur s mx {} [] = Some (Inr (d, pool'))"
  proof (rule leftmost_derive_terminates[OF wf ct _ sent])
    show "nat mx + length (remove_epsilons s) + rhs_bound G \<le> K" by (simp add: K_def)
    show "length cur \<le> K" by (simp add: K_def)
    show "card ({x :: string. length x \<le> K} - {}) < n" by (simp add: n_def)
  qed
  then obtain d pool' where ld: "leftmost_derive n G cur s mx {} [] = Some (Inr (d, pool'))"
    by blast
  have all: "\<forall>m \<ge> n. derive m G cur s mx = Some (Inr d)"
  proof (intro allI impI)
    fix m assume "n \<le> m"
    from leftmost_derive_fuel_mono[OF ld this]
    show "derive m G cur s mx = Some (Inr d)"
      by (simp add: derive_target_string[OF t ne] returned_derivation_def)
  qed
  have iff: "d \<noteq> [] \<longleftrightarrow> (\<exists>ds. bounded_derivation G mx cur s ds)"
  proof
    assume "d \<noteq> []"
    from leftmost_derive_sound[OF ld this] show "\<exists>ds. bounded_derivation G mx cur s ds"
      by (auto simp: rc rs)
  next
    assume "\<exists>ds. bounded_derivation G mx cur s ds"
    then obtain ds where ds: "bounded_derivation G mx (remove_epsilons cur) (remove_epsilons s) ds"
      by (auto simp: rc rs)
    show "d \<noteq> []"
    proof
      assume "d = []"
      with ld have ld': "leftmost_derive n G cur s mx {} [] = Some (Inr ([], pool'))" by simp
      from leftmost_derive_closed[OF ld'] have cl: "search_closed G mx s pool' pool'" by simp
      from leftmost_derive_pool[OF ld'] have "cur \<in> pool'" by blast
      from search_closed_no_derivation[OF cl ct this ds] show False .
    qed
  qed
  from all iff show ?thesis by blast
qed

lemma well_formed_start:
  assumes "well_formed G"
  shows "current_string G [cfg_start_variable G]"
  using assms unfolding well_formed_def current_string_def by simp

lemma generate_exact_wf:
  assumes wf: "well_formed G" and t: "target_string s"
  shows "\<exists>n d. (\<forall>m \<ge> n. generate m G s mx = Some (Inr d)) \<and>
           (d \<noteq> [] \<longleftrightarrow> (\<exists>ds. bounded_derivation G mx [cfg_start_variable G] s ds))"
  using derive_exact[OF wf t well_formed_start[OF wf], of mx]
  by (simp add: generate_target_string[OF t])

text \<open>
  Claim C1. For every grammar that the constructor accepts and every target string (lowercase
  letters and digits, no epsilon letter), \<^verbatim>\<open>generate\<close> returns: for every large enough
  recursion budget it yields one and the same list. That list is non-empty exactly when
  there is a leftmost derivation of the target from the start variable in which every string
  (the start variable and the target included, as the code counts them) has at most
  \<^verbatim>\<open>max_variable_count_in_intermediate_strings\<close> variable occurrences. So neither the shared
  pool nor the terminal-count prune loses a derivation that respects the bound.
\<close>

theorem generate_exact:
  assumes "CFG_init V T R S = Inr G" and "target_string s"
  shows "\<exists>n d. (\<forall>m \<ge> n. generate m G s mx = Some (Inr d)) \<and>
           (d \<noteq> [] \<longleftrightarrow> (\<exists>ds. bounded_derivation G mx [cfg_start_variable G] s ds))"
  using generate_exact_wf[OF CFG_init_well_formed[OF assms(1)] assms(2)] .

theorem generate_exact_witness:
  "CFG_init {CHR ''S''} {CHR ''0'', CHR ''1''} [(CHR ''S'', ''0S1''), (CHR ''S'', ''e'')] (CHR ''S'')
     = Inr cfg_example \<and>
   target_string ''01'' \<and>
   generate 10 cfg_example ''01'' 64 = Some (Inr [''S'', ''0S1'', ''01'']) \<and>
   (\<exists>ds. bounded_derivation cfg_example 64 [cfg_start_variable cfg_example] ''01'' ds)"
proof -
  have h1: "CFG_init {CHR ''S''} {CHR ''0'', CHR ''1''}
      [(CHR ''S'', ''0S1''), (CHR ''S'', ''e'')] (CHR ''S'') = Inr cfg_example"
    by (simp add: CFG_init_def cfg_example_def epsilon_def is_upper_def is_lower_def
        is_digit_def less_eq_char_def)
  have h2: "target_string ''01''"
    by (simp add: target_string_def epsilon_def is_lower_def is_digit_def less_eq_char_def)
  have g: "generate 10 cfg_example ''01'' 64 = Some (Inr [''S'', ''0S1'', ''01''])"
    by code_simp
  from generate_exact[OF h1 h2, of 64] obtain n d where
    all: "\<forall>m \<ge> n. generate m cfg_example ''01'' 64 = Some (Inr d)"
    and iff: "d \<noteq> [] \<longleftrightarrow>
      (\<exists>ds. bounded_derivation cfg_example 64 [cfg_start_variable cfg_example] ''01'' ds)"
    by blast
  from all have "generate (max n 10) cfg_example ''01'' 64 = Some (Inr d)" by simp
  moreover from generate_fuel_mono[OF g, of "max n 10"]
  have "generate (max n 10) cfg_example ''01'' 64 = Some (Inr [''S'', ''0S1'', ''01''])" by simp
  ultimately have "d \<noteq> []" by auto
  with iff h1 h2 g show ?thesis by blast
qed

text \<open>
  Claim C9, as stated: with a well-formed target, \<^verbatim>\<open>derive\<close> never raises but returns the empty
  list when it finds no derivation. It fails for a current string that is not made of the
  grammar's variables and of terminal characters: with the well-formed target \<^verbatim>\<open>0\<close>, the
  current string \<^verbatim>\<open>X\<close> (a capital letter that is no variable of the grammar) fails the
  assertion of \<^verbatim>\<open>_find_rules\<close>, and the current string \<^verbatim>\<open>#\<close> reaches the \<^verbatim>\<open>assert False\<close> of
  \<^verbatim>\<open>_find_leftmost_variable\<close>.
\<close>

theorem derive_current_string_counterexample:
  "target_string ''0'' \<and>
   derive 5 cfg_example ''X'' ''0'' 64 = Some (Inl (AssertionError NoMessage)) \<and>
   derive 5 cfg_example ''#'' ''0'' 64 = Some (Inl (AssertionError NoMessage))"
proof -
  have "target_string ''0''"
    by (simp add: target_string_def epsilon_def is_lower_def is_digit_def less_eq_char_def)
  moreover have "derive 5 cfg_example ''X'' ''0'' 64 = Some (Inl (AssertionError NoMessage))"
    by code_simp
  moreover have "derive 5 cfg_example ''#'' ''0'' 64 = Some (Inl (AssertionError NoMessage))"
    by code_simp
  ultimately show ?thesis by blast
qed

text \<open>
  Claim C9, amended. When the target string has a character that is not a lowercase letter or
  a digit, or has the epsilon letter, \<^verbatim>\<open>derive\<close> and \<^verbatim>\<open>generate\<close> raise \<^verbatim>\<open>AssertionError\<close>,
  before any search. When the grammar is one the constructor accepts, the target is well
  formed and the current string is made of variables of the grammar, lowercase letters other
  than the epsilon letter and digits (as the start variable is that \<^verbatim>\<open>generate\<close> passes),
  neither of them raises, whatever the recursion budget; both return for every large enough
  budget, and they return the empty list when no derivation within the bound exists.
\<close>

theorem derive_assertions:
  "(\<not> target_string s \<longrightarrow>
      derive n G cur s mx = Some (Inl (AssertionError NoMessage)) \<and>
      generate n G s mx = Some (Inl (AssertionError NoMessage))) \<and>
   (CFG_init V T R S = Inr G \<and> target_string s \<and>
    current_string G cur \<longrightarrow>
      derive n G cur s mx \<noteq> Some (Inl err) \<and> generate n G s mx \<noteq> Some (Inl err) \<and>
      (\<exists>k d d'. (\<forall>m \<ge> k. derive m G cur s mx = Some (Inr d) \<and>
                           generate m G s mx = Some (Inr d')) \<and>
         (\<not> (\<exists>ds. bounded_derivation G mx cur s ds) \<longrightarrow> d = []) \<and>
         (\<not> (\<exists>ds. bounded_derivation G mx [cfg_start_variable G] s ds) \<longrightarrow> d' = [])))"
proof (intro conjI impI)
  assume "\<not> target_string s"
  then show "derive n G cur s mx = Some (Inl (AssertionError NoMessage))"
    by (rule not_target_string_derive)
next
  assume "\<not> target_string s"
  then show "generate n G s mx = Some (Inl (AssertionError NoMessage))"
    by (rule not_target_string_generate)
next
  assume a: "CFG_init V T R S = Inr G \<and> target_string s \<and>
    current_string G cur"
  then have wf: "well_formed G" and t: "target_string s"
    and cur: "current_string G cur"
    using CFG_init_well_formed by blast+
  from derive_exact[OF wf t cur, of mx] obtain k1 d where
    d: "\<forall>m \<ge> k1. derive m G cur s mx = Some (Inr d)"
      "d \<noteq> [] \<longleftrightarrow> (\<exists>ds. bounded_derivation G mx cur s ds)" by blast
  from generate_exact_wf[OF wf t, of mx] obtain k2 d' where
    d': "\<forall>m \<ge> k2. generate m G s mx = Some (Inr d')"
      "d' \<noteq> [] \<longleftrightarrow> (\<exists>ds. bounded_derivation G mx [cfg_start_variable G] s ds)" by blast
  show "derive n G cur s mx \<noteq> Some (Inl err)"
  proof
    assume "derive n G cur s mx = Some (Inl err)"
    from derive_fuel_mono[OF this, of "max n k1"] d(1) show False by simp
  qed
  show "generate n G s mx \<noteq> Some (Inl err)"
  proof
    assume "generate n G s mx = Some (Inl err)"
    from generate_fuel_mono[OF this, of "max n k2"] d'(1) show False by simp
  qed
  have "\<forall>m \<ge> max k1 k2. derive m G cur s mx = Some (Inr d) \<and> generate m G s mx = Some (Inr d')"
    using d(1) d'(1) by simp
  with d(2) d'(2)
  show "\<exists>k d d'. (\<forall>m \<ge> k. derive m G cur s mx = Some (Inr d) \<and>
                           generate m G s mx = Some (Inr d')) \<and>
         (\<not> (\<exists>ds. bounded_derivation G mx cur s ds) \<longrightarrow> d = []) \<and>
         (\<not> (\<exists>ds. bounded_derivation G mx [cfg_start_variable G] s ds) \<longrightarrow> d' = [])"
    by blast
qed


theorem derive_assertions_witness:
  "\<not> target_string ''0e'' \<and>
   derive 0 cfg_example ''S'' ''0e'' 64 = Some (Inl (AssertionError NoMessage)) \<and>
   generate 0 cfg_example ''0e'' 64 = Some (Inl (AssertionError NoMessage)) \<and>
   CFG_init {CHR ''S''} {CHR ''0'', CHR ''1''} [(CHR ''S'', ''0S1''), (CHR ''S'', ''e'')] (CHR ''S'')
     = Inr cfg_example \<and>
   target_string ''10'' \<and>
   current_string cfg_example ''S2'' \<and>
   derive 10 cfg_example ''S2'' ''10'' 64 = Some (Inr []) \<and>
   generate 10 cfg_example ''10'' 64 = Some (Inr []) \<and>
   derive 10 cfg_example ''S2'' ''10'' 64 \<noteq> Some (Inl (AssertionError NoMessage)) \<and>
   generate 10 cfg_example ''10'' 64 \<noteq> Some (Inl (AssertionError NoMessage))"
proof -
  have h0: "\<not> target_string ''0e''"
    by (simp add: target_string_def epsilon_def)
  have h1: "CFG_init {CHR ''S''} {CHR ''0'', CHR ''1''}
      [(CHR ''S'', ''0S1''), (CHR ''S'', ''e'')] (CHR ''S'') = Inr cfg_example"
    by (simp add: CFG_init_def cfg_example_def epsilon_def is_upper_def is_lower_def
        is_digit_def less_eq_char_def)
  have h2: "target_string ''10''"
    by (simp add: target_string_def epsilon_def is_lower_def is_digit_def less_eq_char_def)
  have h3: "current_string cfg_example ''S2''"
    by (simp add: current_string_def cfg_example_def epsilon_def is_lower_def is_digit_def
        less_eq_char_def)
  have g: "generate 10 cfg_example ''10'' 64 = Some (Inr [])" by code_simp
  have d: "derive 10 cfg_example ''S2'' ''10'' 64 = Some (Inr [])" by code_simp
  from derive_assertions[of "''0e''" 0 cfg_example "''S''" 64] h0
  have a: "derive 0 cfg_example ''S'' ''0e'' 64 = Some (Inl (AssertionError NoMessage))"
    "generate 0 cfg_example ''0e'' 64 = Some (Inl (AssertionError NoMessage))"
    by blast+
  from derive_assertions[of "''10''" 10 cfg_example "''S2''" 64 "{CHR ''S''}" "{CHR ''0'', CHR ''1''}"
      "[(CHR ''S'', ''0S1''), (CHR ''S'', ''e'')]" "CHR ''S''" "AssertionError NoMessage"] h1 h2 h3
  have b: "derive 10 cfg_example ''S2'' ''10'' 64 \<noteq> Some (Inl (AssertionError NoMessage))"
    "generate 10 cfg_example ''10'' 64 \<noteq> Some (Inl (AssertionError NoMessage))"
    by blast+
  from h0 a h1 h2 h3 g d b show ?thesis by blast
qed

section \<open>Properties of the file readers\<close>












end
